theory Spec2Isabelle
  imports Complex_Main "HOL-Library.Word"
begin

section \<open>Single-precision values\<close>

text \<open>
  The raster band is read as \<^verbatim>\<open>float32\<close> (\<^verbatim>\<open>src.read(1).astype(np.float32)\<close>), and every
  array operation of \<^verbatim>\<open>convert_tiff_to_heightmap\<close> stays in that format.  A value is
  not-a-number, one of the two infinities, or a finite real.  A finite value may carry
  any real: the cells of a band that was read are fixed points of \<open>round32\<close> below, every
  arithmetic result is one, and no property proved here needs more.  The two zeros of the
  format are one value here: the only operation that tells them apart is a division by
  zero, which the scaling branch never performs.
\<close>

datatype f32 = NaN | NInf | Fin real | PInf

text \<open>Round half to even, to an integer.\<close>

definition rhe :: "real \<Rightarrow> int" where
  "rhe x = (let f = \<lfloor>x\<rfloor>; r = x - of_int f
            in if r < 1/2 then f else if 1/2 < r then f + 1
               else if even f then f else f + 1)"

text \<open>
  The binary exponent of a positive magnitude, found by halving or doubling it into
  \<open>[1, 2)\<close>; the fuel covers the exponents \<open>-126 .. 127\<close> of the format.
\<close>

fun lg :: "nat \<Rightarrow> real \<Rightarrow> int" where
  "lg 0 a = 0"
| "lg (Suc n) a = (if 2 \<le> a then lg n (a / 2) + 1
                   else if a < 1 then lg n (a * 2) - 1 else 0)"

definition expo :: "real \<Rightarrow> int" where
  "expo a = (if a < 2 powi (-126) then -126 else lg 128 a)"

text \<open>The spacing of the format around \<open>x\<close>: 24 significant bits, subnormals below \<open>2 powi (-126)\<close>.\<close>

definition quantum :: "real \<Rightarrow> real" where
  "quantum x = 2 powi (expo \<bar>x\<bar> - 23)"

definition round_fin :: "real \<Rightarrow> real" where
  "round_fin x = sgn x * (of_int (rhe (\<bar>x\<bar> / quantum x)) * quantum x)"

text \<open>Round to nearest, ties to even, overflowing to an infinity from \<open>2 ^ 128\<close> on.\<close>

definition round32 :: "real \<Rightarrow> f32" where
  "round32 x = (let y = (if \<bar>x\<bar> < 2 ^ 128 then round_fin x else x)
                in if 2 ^ 128 \<le> y then PInf else if y \<le> - (2 ^ 128) then NInf else Fin y)"

fun isnan :: "f32 \<Rightarrow> bool" where
  "isnan NaN = True"
| "isnan _ = False"

fun isfinite :: "f32 \<Rightarrow> bool" where
  "isfinite (Fin _) = True"
| "isfinite _ = False"

text \<open>The comparisons of the format: every comparison with a not-a-number is false.\<close>

fun flt :: "f32 \<Rightarrow> f32 \<Rightarrow> bool" where
  "flt NaN _ = False"
| "flt _ NaN = False"
| "flt _ NInf = False"
| "flt NInf _ = True"
| "flt PInf _ = False"
| "flt _ PInf = True"
| "flt (Fin a) (Fin b) = (a < b)"

fun feq :: "f32 \<Rightarrow> f32 \<Rightarrow> bool" where
  "feq NaN _ = False"
| "feq _ NaN = False"
| "feq a b = (a = b)"

definition fle :: "f32 \<Rightarrow> f32 \<Rightarrow> bool" where
  "fle a b = (flt a b \<or> feq a b)"

fun fneg :: "f32 \<Rightarrow> f32" where
  "fneg NaN = NaN"
| "fneg NInf = PInf"
| "fneg PInf = NInf"
| "fneg (Fin a) = Fin (- a)"

fun fabs :: "f32 \<Rightarrow> f32" where
  "fabs NaN = NaN"
| "fabs NInf = PInf"
| "fabs PInf = PInf"
| "fabs (Fin a) = Fin \<bar>a\<bar>"

fun fadd :: "f32 \<Rightarrow> f32 \<Rightarrow> f32" where
  "fadd NaN _ = NaN"
| "fadd _ NaN = NaN"
| "fadd PInf NInf = NaN"
| "fadd NInf PInf = NaN"
| "fadd PInf _ = PInf"
| "fadd _ PInf = PInf"
| "fadd NInf _ = NInf"
| "fadd _ NInf = NInf"
| "fadd (Fin a) (Fin b) = round32 (a + b)"

definition fsub :: "f32 \<Rightarrow> f32 \<Rightarrow> f32" where
  "fsub a b = fadd a (fneg b)"

text \<open>The sign of a product or quotient with an infinite operand.\<close>

definition signed_inf :: "bool \<Rightarrow> f32" where
  "signed_inf neg = (if neg then NInf else PInf)"

fun is_neg :: "f32 \<Rightarrow> bool" where
  "is_neg NInf = True"
| "is_neg (Fin a) = (a < 0)"
| "is_neg _ = False"

fun fmul :: "f32 \<Rightarrow> f32 \<Rightarrow> f32" where
  "fmul NaN _ = NaN"
| "fmul _ NaN = NaN"
| "fmul (Fin a) (Fin b) = round32 (a * b)"
| "fmul (Fin a) y = (if a = 0 then NaN else signed_inf (is_neg (Fin a) \<noteq> is_neg y))"
| "fmul x (Fin b) = (if b = 0 then NaN else signed_inf (is_neg x \<noteq> is_neg (Fin b)))"
| "fmul x y = signed_inf (is_neg x \<noteq> is_neg y)"

fun fdiv :: "f32 \<Rightarrow> f32 \<Rightarrow> f32" where
  "fdiv NaN _ = NaN"
| "fdiv _ NaN = NaN"
| "fdiv (Fin a) (Fin b) =
     (if b = 0 then (if a = 0 then NaN else signed_inf (a < 0)) else round32 (a / b))"
| "fdiv (Fin a) _ = Fin 0"
| "fdiv x (Fin b) = signed_inf (is_neg x \<noteq> (b < 0))"
| "fdiv _ _ = NaN"

fun fsqrt :: "f32 \<Rightarrow> f32" where
  "fsqrt NaN = NaN"
| "fsqrt NInf = NaN"
| "fsqrt PInf = PInf"
| "fsqrt (Fin a) = (if a < 0 then NaN else round32 (sqrt a))"

section \<open>The array operations the conversion calls\<close>

text \<open>
  A band is a list of rows.  The reductions are taken over all cells (no axis is given),
  in row-major order.
\<close>

type_synonym grid = "f32 list list"

datatype error = ValueError

text \<open>
  \<^verbatim>\<open>np.where(data == nodata_val, np.nan, data)\<close>.  The no-data value of the file is a
  Python float, a double; compared with a single-precision array it is first converted
  to single precision, so a cell is masked when it equals the rounded no-data value.
\<close>

fun astype_float32 :: "f32 \<Rightarrow> f32" where
  "astype_float32 (Fin v) = round32 v"
| "astype_float32 x = x"

definition mask_nodata :: "f32 \<Rightarrow> grid \<Rightarrow> grid" where
  "mask_nodata nodata_val data =
     map (map (\<lambda>x. if feq x (astype_float32 nodata_val) then NaN else x)) data"

text \<open>Lines 24 and 25: the mask is applied only when the file declares a no-data value.\<close>

definition apply_nodata :: "f32 option \<Rightarrow> grid \<Rightarrow> grid" where
  "apply_nodata nodata_val data =
     (case nodata_val of None \<Rightarrow> data | Some nd \<Rightarrow> mask_nodata nd data)"

text \<open>
  \<^verbatim>\<open>np.nanmin\<close> and \<^verbatim>\<open>np.nanmax\<close> reduce with \<^verbatim>\<open>fmin\<close> and \<^verbatim>\<open>fmax\<close>, which return the other
  operand when one is not-a-number.  Reducing an array of no cells raises; an array of
  not-a-numbers only gives not-a-number (and a warning).
\<close>

definition np_fmin :: "f32 \<Rightarrow> f32 \<Rightarrow> f32" where
  "np_fmin a b = (if isnan a then b else if isnan b then a else if flt b a then b else a)"

definition np_fmax :: "f32 \<Rightarrow> f32 \<Rightarrow> f32" where
  "np_fmax a b = (if isnan a then b else if isnan b then a else if flt a b then b else a)"

definition np_nanmin :: "grid \<Rightarrow> error + f32" where
  "np_nanmin data = (case concat data of [] \<Rightarrow> Inl ValueError
                     | x # xs \<Rightarrow> Inr (foldl np_fmin x xs))"

definition np_nanmax :: "grid \<Rightarrow> error + f32" where
  "np_nanmax data = (case concat data of [] \<Rightarrow> Inl ValueError
                     | x # xs \<Rightarrow> Inr (foldl np_fmax x xs))"

text \<open>
  \<^verbatim>\<open>np.sum\<close> of a contiguous single-precision array is \<^verbatim>\<open>np.add.reduce\<close>: the accumulator
  starts at zero and the pairwise sum of all cells is added to it.  The pairwise sum
  (\<^verbatim>\<open>FLOAT_pairwise_sum\<close>) adds fewer than 8 cells one after the other; up to 128 cells
  it keeps 8 running sums, cell \<open>i\<close> going to sum \<open>i mod 8\<close>, adds them up as
  \<open>((r0 + r1) + (r2 + r3)) + ((r4 + r5) + (r6 + r7))\<close> and then adds the cells left over
  after the last full group of 8; and it splits a longer array at half its length
  rounded down to a multiple of 8.
\<close>

fun unrolled :: "f32 list \<Rightarrow> f32 list \<Rightarrow> f32 list \<times> f32 list" where
  "unrolled r ys = (if length ys < 8 then (r, ys)
                    else unrolled (map2 fadd r (take 8 ys)) (drop 8 ys))"

fun combine8 :: "f32 list \<Rightarrow> f32" where
  "combine8 [r0, r1, r2, r3, r4, r5, r6, r7] =
     fadd (fadd (fadd r0 r1) (fadd r2 r3)) (fadd (fadd r4 r5) (fadd r6 r7))"
| "combine8 _ = NaN"

definition block_sum :: "f32 list \<Rightarrow> f32" where
  "block_sum xs = (case unrolled (take 8 xs) (drop 8 xs) of
                     (r, rest) \<Rightarrow> foldl fadd (combine8 r) rest)"

definition split_point :: "nat \<Rightarrow> nat" where
  "split_point n = n div 2 - (n div 2) mod 8"

function pairwise_sum :: "f32 list \<Rightarrow> f32" where
  "pairwise_sum xs =
     (if length xs < 8 then foldl fadd (Fin 0) xs
      else if length xs \<le> 128 then block_sum xs
      else fadd (pairwise_sum (take (split_point (length xs)) xs))
                (pairwise_sum (drop (split_point (length xs)) xs)))"
  by pat_completeness auto
termination
  by (relation "measure length") (auto simp: split_point_def)

definition np_sum :: "f32 list \<Rightarrow> f32" where
  "np_sum xs = fadd (Fin 0) (pairwise_sum xs)"

text \<open>
  \<^verbatim>\<open>np.nanmean\<close> and \<^verbatim>\<open>np.nanstd\<close> put zero in place of every not-a-number, sum all
  cells and divide by the number of cells that were numbers.  With no such cell the
  quotient is \<open>0 / 0\<close>, not-a-number.
\<close>

definition zero_nans :: "f32 list \<Rightarrow> f32 list" where
  "zero_nans xs = map (\<lambda>x. if isnan x then Fin 0 else x) xs"

definition count_numbers :: "f32 list \<Rightarrow> nat" where
  "count_numbers xs = length (filter (\<lambda>x. \<not> isnan x) xs)"

definition np_nanmean :: "grid \<Rightarrow> f32" where
  "np_nanmean data = (let xs = concat data
                      in fdiv (np_sum (zero_nans xs)) (Fin (real (count_numbers xs))))"

definition sq_dev :: "f32 \<Rightarrow> f32 \<Rightarrow> f32" where
  "sq_dev avg x = (if isnan x then Fin 0 else fmul (fsub x avg) (fsub x avg))"

definition np_nanvar :: "grid \<Rightarrow> f32" where
  "np_nanvar data = (let xs = concat data; cnt = count_numbers xs;
                         avg = fdiv (np_sum (zero_nans xs)) (Fin (real cnt))
                     in if cnt = 0 then NaN
                        else fdiv (np_sum (map (sq_dev avg) xs)) (Fin (real cnt)))"

definition np_nanstd :: "grid \<Rightarrow> f32" where
  "np_nanstd data = fsqrt (np_nanvar data)"

text \<open>
  \<^verbatim>\<open>np.isclose\<close> with its default tolerances, on two single-precision scalars:
  \<^verbatim>\<open>(abs(x - y) <= atol + rtol * abs(y)) & isfinite(y) | (x == y)\<close>, evaluated in the
  precision of the operands.  (NumPy before 2.0 evaluates the inequality in double
  precision; the properties below use the comparison only far from its boundary, or
  only through the fact that a zero range is close.)
\<close>

definition atol :: f32 where
  "atol = round32 (1 / 10 ^ 8)"

definition rtol :: f32 where
  "rtol = round32 (1 / 10 ^ 5)"

definition np_isclose :: "f32 \<Rightarrow> f32 \<Rightarrow> bool" where
  "np_isclose x y =
     (fle (fabs (fsub x y)) (fadd atol (fmul rtol (fabs y))) \<and> isfinite y \<or> feq x y)"

text \<open>\<^verbatim>\<open>np.clip\<close> is \<^verbatim>\<open>minimum(maximum(x, lo), hi)\<close>, which hands a not-a-number on.\<close>

definition np_clip :: "f32 \<Rightarrow> f32 \<Rightarrow> f32 \<Rightarrow> f32" where
  "np_clip x lo hi = (if isnan x then NaN else if flt x lo then lo
                      else if flt hi x then hi else x)"

fun np_nan_to_num :: "f32 \<Rightarrow> real \<Rightarrow> real \<Rightarrow> real \<Rightarrow> f32" where
  "np_nan_to_num NaN nan posinf neginf = Fin nan"
| "np_nan_to_num PInf nan posinf neginf = Fin posinf"
| "np_nan_to_num NInf nan posinf neginf = Fin neginf"
| "np_nan_to_num (Fin v) nan posinf neginf = Fin v"

text \<open>
  \<^verbatim>\<open>.astype(np.uint8)\<close> is the C conversion: the fraction is dropped (towards zero) and
  the integer kept in eight bits.  For a value that is not finite the C conversion is
  undefined; the model returns 0 there, and the conversion never casts such a value.
\<close>

definition trunc :: "real \<Rightarrow> int" where
  "trunc v = (if 0 \<le> v then \<lfloor>v\<rfloor> else \<lceil>v\<rceil>)"

fun astype_uint8 :: "f32 \<Rightarrow> 8 word" where
  "astype_uint8 (Fin v) = word_of_int (trunc v)"
| "astype_uint8 _ = 0"

section \<open>The conversion\<close>

record statistics =
  data_min :: f32
  data_max :: f32
  data_mean :: f32
  data_stddev :: f32
  elevation_range :: f32

text \<open>Lines 50 to 56 for one cell: the value in \<open>[0, 1]\<close> that is multiplied by 255.\<close>

definition unit_scaled :: "f32 \<Rightarrow> f32 \<Rightarrow> f32 \<Rightarrow> f32" where
  "unit_scaled lo hi x =
     np_nan_to_num (np_clip (fdiv (fsub x lo) (fsub hi lo)) (Fin 0) (Fin 1)) 0 1 0"

definition scale_cell :: "f32 \<Rightarrow> f32 \<Rightarrow> f32 \<Rightarrow> 8 word" where
  "scale_cell lo hi x = astype_uint8 (fmul (unit_scaled lo hi x) (Fin 255))"

text \<open>
  The body of \<^verbatim>\<open>convert_tiff_to_heightmap\<close> between reading the band and writing the
  image: the band as single-precision cells and the no-data value of the file, if it
  has one, to the printed statistics and the 8-bit image.
\<close>

definition convert_tiff_to_heightmap ::
    "grid \<Rightarrow> f32 option \<Rightarrow> error + statistics \<times> 8 word list list" where
  "convert_tiff_to_heightmap band nodata_val =
     (let data = apply_nodata nodata_val band
      in case np_nanmin data of Inl e \<Rightarrow> Inl e | Inr lo \<Rightarrow>
         (case np_nanmax data of Inl e \<Rightarrow> Inl e | Inr hi \<Rightarrow>
            Inr (\<lparr>data_min = lo, data_max = hi, data_mean = np_nanmean data,
                  data_stddev = np_nanstd data, elevation_range = fsub hi lo\<rparr>,
                 if np_isclose lo hi then map (map (\<lambda>x. 128)) data
                 else map (map (scale_cell lo hi)) data)))"

section \<open>The statistics as the specification words them\<close>

text \<open>
  A valid cell is a cell that is a number and, when a sentinel is given, is not equal to
  it (compared in single precision, as the mask compares).  The statistics of the
  specification are taken over the valid cells only: the least and the greatest of
  them, their arithmetic mean, and their population standard deviation, whose
  denominator is the number of valid cells.  In the sums an invalid cell stands as
  zero.
\<close>

definition is_valid :: "f32 option \<Rightarrow> f32 \<Rightarrow> bool" where
  "is_valid sentinel x =
     (\<not> isnan x \<and> (case sentinel of None \<Rightarrow> True | Some s \<Rightarrow> \<not> feq x (astype_float32 s)))"

definition valid_cells :: "grid \<Rightarrow> f32 option \<Rightarrow> f32 list" where
  "valid_cells band sentinel = filter (is_valid sentinel) (concat band)"

definition least_of :: "f32 \<Rightarrow> f32 list \<Rightarrow> bool" where
  "least_of lo vs = (if vs = [] then isnan lo else lo \<in> set vs \<and> (\<forall>v \<in> set vs. fle lo v))"

definition greatest_of :: "f32 \<Rightarrow> f32 list \<Rightarrow> bool" where
  "greatest_of hi vs = (if vs = [] then isnan hi else hi \<in> set vs \<and> (\<forall>v \<in> set vs. fle v hi))"

definition valid_or_zero :: "f32 option \<Rightarrow> grid \<Rightarrow> f32 list" where
  "valid_or_zero sentinel band =
     map (\<lambda>x. if is_valid sentinel x then x else Fin 0) (concat band)"

definition squared_deviations :: "f32 option \<Rightarrow> f32 \<Rightarrow> grid \<Rightarrow> f32 list" where
  "squared_deviations sentinel m band =
     map (\<lambda>x. if is_valid sentinel x then fmul (fsub x m) (fsub x m) else Fin 0) (concat band)"

text \<open>Cells that hold integers, and the sum of their magnitudes.\<close>

definition int_cells :: "int list \<Rightarrow> f32 list" where
  "int_cells ks = map (\<lambda>k. Fin (real_of_int k)) ks"

definition abs_sum :: "int list \<Rightarrow> int" where
  "abs_sum ks = sum_list (map abs ks)"

section \<open>Rounding\<close>

text \<open>The fuel of \<open>lg\<close> stays a binary numeral while a concrete value is evaluated.\<close>

lemma lg_numeral:
  "lg (numeral k) a = (if 2 \<le> a then lg (pred_numeral k) (a / 2) + 1
                       else if a < 1 then lg (pred_numeral k) (a * 2) - 1 else 0)"
  by (simp add: numeral_eq_Suc)

lemmas f32_eval = round32_def round_fin_def quantum_def expo_def rhe_def lg_numeral
  Let_def fsub_def fle_def signed_inf_def trunc_def

lemmas np_eval = np_isclose_def atol_def rtol_def np_clip_def np_nanmin_def np_nanmax_def
  np_fmin_def np_fmax_def np_nanmean_def np_nanstd_def np_nanvar_def zero_nans_def
  count_numbers_def sq_dev_def mask_nodata_def apply_nodata_def

lemma rhe_of_int: "rhe (of_int n) = n"
  by (simp add: rhe_def)

lemma rhe_bounds: "\<lfloor>x\<rfloor> \<le> rhe x \<and> rhe x \<le> \<lfloor>x\<rfloor> + 1"
  by (simp add: rhe_def Let_def)

lemma rhe_mono: 
  assumes "x \<le> y" shows "rhe x \<le> rhe y"
proof (cases "\<lfloor>x\<rfloor> = \<lfloor>y\<rfloor>")
  case True
  with assms show ?thesis
    by (auto simp: rhe_def Let_def)
next
  case False
  with assms have "\<lfloor>x\<rfloor> + 1 \<le> \<lfloor>y\<rfloor>"
    using floor_mono [of x y] by linarith
  then show ?thesis
    using rhe_bounds [of x] rhe_bounds [of y] by linarith
qed

lemma lg_bounds:
  "1 / 2 ^ n \<le> a \<Longrightarrow> a < 2 ^ n \<Longrightarrow> 2 powi (lg n a) \<le> a \<and> a < 2 powi (lg n a + 1)"
proof (induction n arbitrary: a)
  case 0
  then show ?case by simp
next
  case (Suc n)
  show ?case
  proof (cases "2 \<le> a")
    case True
    have "1 / 2 ^ n \<le> (1::real)" by (simp add: divide_le_eq)
    moreover from True have "1 \<le> a / 2" by simp
    ultimately have "1 / 2 ^ n \<le> a / 2" by linarith
    moreover from Suc.prems have "a / 2 < 2 ^ n" by simp
    ultimately have "1 / 2 ^ n \<le> a / 2" "a / 2 < 2 ^ n" by auto
    from Suc.IH [OF this] True show ?thesis
      by (simp add: power_int_add field_simps)
  next
    case False
    show ?thesis
    proof (cases "a < 1")
      case ge: False
      with False show ?thesis by simp
    next
      case True
      show ?thesis
      proof (cases n)
        case 0
        with True Suc.prems show ?thesis by (simp add: power_int_minus field_simps)
      next
        case (Suc m)
        have "(2::real) \<le> 2 ^ n" unfolding Suc by simp
        with True Suc.prems have "1 / 2 ^ n \<le> a * 2" "a * 2 < 2 ^ n" 
          by (auto simp: field_simps)
        from Suc.IH [OF this] True show ?thesis
          by (simp add: power_int_diff power_int_add field_simps)
      qed
    qed
  qed
qed

lemma p2_less_iff: "(2::real) powi i < 2 powi j \<longleftrightarrow> i < j"
proof
  assume "(2::real) powi i < 2 powi j"
  show "i < j"
  proof (rule ccontr)
    assume "\<not> i < j"
    then have "(2::real) powi j \<le> 2 powi i"
      by (intro power_int_increasing) auto
    with \<open>(2::real) powi i < 2 powi j\<close> show False by simp
  qed
next
  assume "i < j"
  then show "(2::real) powi i < 2 powi j"
    by (intro power_int_strict_increasing) auto
qed

lemma p2_le_iff: "(2::real) powi i \<le> 2 powi j \<longleftrightarrow> i \<le> j"
  using p2_less_iff [of j i] by (auto simp: not_less [symmetric])

lemma expo_bounds:
  assumes "0 \<le> a" "a < 2 ^ 128"
  shows "- 126 \<le> expo a" "expo a \<le> 127" "a < 2 powi (expo a + 1)"
    "- 126 < expo a \<Longrightarrow> 2 powi (expo a) \<le> a"
proof -
  have all: "- 126 \<le> expo a \<and> expo a \<le> 127 \<and> a < 2 powi (expo a + 1) \<and>
    (- 126 < expo a \<longrightarrow> 2 powi (expo a) \<le> a)"
  proof (cases "a < 2 powi (- 126)")
    case True
    moreover have "(2::real) powi (- 126) < 2 powi (- 126 + 1)"
      by (subst p2_less_iff) simp
    ultimately show ?thesis
      by (simp add: expo_def)
  next
    case False
    define k where "k = lg 128 a"
    have low: "2 powi (- 126) \<le> a" using False by simp
    have "(1::real) / 2 ^ 128 = 2 powi (- 128)"
      by (simp add: power_int_minus_divide)
    also have "\<dots> \<le> 2 powi (- 126)"
      by (subst p2_le_iff) simp
    finally have "1 / 2 ^ 128 \<le> a" using low by linarith
    from lg_bounds [OF this assms(2)]
    have b: "2 powi k \<le> a" "a < 2 powi (k + 1)" by (simp_all add: k_def)
    from low b(2) have "(2::real) powi (- 126) < 2 powi (k + 1)" by linarith
    then have "- 126 < k + 1" by (simp only: p2_less_iff)
    then have k1: "- 126 \<le> k" by simp
    have "(2::real) ^ 128 = 2 powi 128" by simp
    with b(1) assms(2) have "(2::real) powi k < 2 powi 128" by linarith
    then have "k < 128" by (simp only: p2_less_iff)
    then have k2: "k \<le> 127" by simp
    have "expo a = k" using False by (simp add: expo_def k_def)
    with b k1 k2 show ?thesis by simp
  qed
  from all show "- 126 \<le> expo a" "expo a \<le> 127" "a < 2 powi (expo a + 1)"
    "- 126 < expo a \<Longrightarrow> 2 powi (expo a) \<le> a" by simp_all
qed

lemma expo_unique:
  assumes "0 \<le> a" "- 126 \<le> k" "k \<le> 127" "a < 2 powi (k + 1)"
    "- 126 < k \<Longrightarrow> 2 powi k \<le> a"
  shows "expo a = k"
proof -
  have "(2::real) powi (k + 1) \<le> 2 powi 128"
    using assms(3) by (subst p2_le_iff) simp
  with assms(4) have a: "a < 2 ^ 128" by simp
  note b = expo_bounds [OF assms(1) a]
  show ?thesis
  proof (rule ccontr)
    assume ne: "expo a \<noteq> k"
    show False
    proof (cases "expo a < k")
      case True
      with assms(2) b(1) have "2 powi k \<le> a" using assms(5) by simp
      moreover have "(2::real) powi (expo a + 1) \<le> 2 powi k"
        using True by (subst p2_le_iff) simp
      ultimately show False using b(3) by linarith
    next
      case False
      with ne have gt: "k < expo a" by simp
      with assms(2) have "2 powi (expo a) \<le> a" using b(4) by simp
      moreover have "(2::real) powi (k + 1) \<le> 2 powi (expo a)"
        using gt by (subst p2_le_iff) simp
      ultimately show False using assms(4) by linarith
    qed
  qed
qed

lemma expo_mono:
  assumes "0 \<le> x" "x \<le> y" "y < 2 ^ 128"
  shows "expo x \<le> expo y"
proof (rule ccontr)
  assume "\<not> expo x \<le> expo y"
  then have gt: "expo y < expo x" by simp
  from assms have x: "x < 2 ^ 128" and y: "0 \<le> y" by simp_all
  from gt expo_bounds(1) [OF y assms(3)] have "- 126 < expo x" by simp
  then have "2 powi (expo x) \<le> x" using expo_bounds(4) [OF assms(1) x] by simp
  moreover have "(2::real) powi (expo y + 1) \<le> 2 powi (expo x)"
    using gt by (subst p2_le_iff) simp
  ultimately show False using expo_bounds(3) [OF y assms(3)] assms(2) by linarith
qed

lemma quantum_pos: "0 < quantum x"
  by (simp add: quantum_def)

lemma round_fin_nonneg_eq:
  "0 \<le> x \<Longrightarrow> round_fin x = of_int (rhe (x / quantum x)) * quantum x"
  by (cases "x = 0") (simp_all add: round_fin_def rhe_def)

lemma quantum_scale:
  "quantum x * 2 ^ 24 = 2 powi (expo \<bar>x\<bar> + 1)"
  "quantum x * 2 ^ 23 = 2 powi (expo \<bar>x\<bar>)"
proof -
  have "(2::real) powi ((expo \<bar>x\<bar> - 23) + 24) = 2 powi (expo \<bar>x\<bar> - 23) * 2 powi 24"
    by (rule power_int_add) simp
  moreover have "(2::real) powi 24 = 2 ^ 24" by (rule power_int_numeral)
  moreover have "expo \<bar>x\<bar> - 23 + 24 = expo \<bar>x\<bar> + 1" by simp
  ultimately show "quantum x * 2 ^ 24 = 2 powi (expo \<bar>x\<bar> + 1)"
    by (simp only: quantum_def)
  have "(2::real) powi ((expo \<bar>x\<bar> - 23) + 23) = 2 powi (expo \<bar>x\<bar> - 23) * 2 powi 23"
    by (rule power_int_add) simp
  moreover have "(2::real) powi 23 = 2 ^ 23" by (rule power_int_numeral)
  moreover have "expo \<bar>x\<bar> - 23 + 23 = expo \<bar>x\<bar>" by simp
  ultimately show "quantum x * 2 ^ 23 = 2 powi (expo \<bar>x\<bar>)"
    by (simp only: quantum_def)
qed

lemma round_fin_upper:
  assumes "0 \<le> x" "x < 2 ^ 128"
  shows "round_fin x \<le> 2 powi (expo x + 1)"
proof -
  have "x / quantum x \<le> 2 ^ 24"
    using expo_bounds(3) [OF assms] quantum_scale(1) [of x] assms(1) quantum_pos [of x]
    by (simp add: field_simps)
  then have "rhe (x / quantum x) \<le> rhe (of_int (2 ^ 24))"
    by (intro rhe_mono) simp
  then have "rhe (x / quantum x) \<le> 2 ^ 24" by (simp only: rhe_of_int)
  then have "real_of_int (rhe (x / quantum x)) \<le> 2 ^ 24"
    by (metis of_int_le_iff of_int_numeral of_int_power)
  then have "real_of_int (rhe (x / quantum x)) * quantum x \<le> 2 ^ 24 * quantum x"
    using quantum_pos [of x] by (simp only: mult_le_cancel_right_pos)
  then show ?thesis
    using quantum_scale(1) [of x] assms(1) by (simp add: round_fin_nonneg_eq mult.commute)
qed

lemma round_fin_lower:
  assumes "0 \<le> x" "x < 2 ^ 128" "- 126 < expo x"
  shows "2 powi (expo x) \<le> round_fin x"
proof -
  have "2 ^ 23 \<le> x / quantum x"
    using expo_bounds(4) [OF assms] quantum_scale(2) [of x] assms(1) quantum_pos [of x]
    by (simp add: field_simps)
  then have "rhe (of_int (2 ^ 23)) \<le> rhe (x / quantum x)"
    by (intro rhe_mono) simp
  then have "2 ^ 23 \<le> rhe (x / quantum x)" by (simp only: rhe_of_int)
  then have "2 ^ 23 \<le> real_of_int (rhe (x / quantum x))"
    by (metis of_int_le_iff of_int_numeral of_int_power)
  then have "2 ^ 23 * quantum x \<le> real_of_int (rhe (x / quantum x)) * quantum x"
    using quantum_pos [of x] by (simp only: mult_le_cancel_right_pos)
  then show ?thesis
    using quantum_scale(2) [of x] assms(1) by (simp add: round_fin_nonneg_eq mult.commute)
qed

lemma round_fin_mono_nonneg:
  assumes "0 \<le> x" "x \<le> y" "y < 2 ^ 128"
  shows "round_fin x \<le> round_fin y"
proof -
  from assms have x: "x < 2 ^ 128" and y: "0 \<le> y" by simp_all
  have le: "expo x \<le> expo y" by (rule expo_mono [OF assms])
  show ?thesis
  proof (cases "expo x = expo y")
    case True
    then have q: "quantum x = quantum y"
      using assms(1) y by (simp add: quantum_def)
    have "x / quantum y \<le> y / quantum y"
      using assms(2) quantum_pos [of y] by (simp add: divide_le_cancel)
    then have "rhe (x / quantum y) \<le> rhe (y / quantum y)" by (rule rhe_mono)
    then have "real_of_int (rhe (x / quantum y)) * quantum y
        \<le> real_of_int (rhe (y / quantum y)) * quantum y"
      using quantum_pos [of y] by (simp only: mult_le_cancel_right_pos of_int_le_iff)
    then show ?thesis
      using assms(1) y q by (simp add: round_fin_nonneg_eq)
  next
    case False
    with le have lt: "expo x < expo y" by simp
    with expo_bounds(1) [OF assms(1) x] have "- 126 < expo y" by simp
    then have "2 powi (expo y) \<le> round_fin y" by (rule round_fin_lower [OF y assms(3)])
    moreover have "(2::real) powi (expo x + 1) \<le> 2 powi (expo y)"
      using lt by (subst p2_le_iff) simp
    ultimately show ?thesis using round_fin_upper [OF assms(1) x] by linarith
  qed
qed

lemma round_fin_minus: "round_fin (- x) = - round_fin x"
  by (simp add: round_fin_def quantum_def sgn_minus)

lemma round_fin_nonneg: "0 \<le> x \<Longrightarrow> 0 \<le> round_fin x"
  using quantum_pos [of x] rhe_mono [of 0 "x / quantum x"] rhe_of_int [of 0]
  by (simp add: round_fin_nonneg_eq)

lemma round_fin_mono:
  assumes "x \<le> y" "\<bar>x\<bar> < 2 ^ 128" "\<bar>y\<bar> < 2 ^ 128"
  shows "round_fin x \<le> round_fin y"
proof (cases "0 \<le> x")
  case True
  with assms show ?thesis by (intro round_fin_mono_nonneg) auto
next
  case xneg: False
  show ?thesis
  proof (cases "0 \<le> y")
    case True
    have "0 \<le> round_fin (- x)" using xneg by (intro round_fin_nonneg) simp
    then have "round_fin x \<le> 0" by (simp add: round_fin_minus)
    with round_fin_nonneg [OF True] show ?thesis by linarith
  next
    case False
    with assms xneg have "round_fin (- y) \<le> round_fin (- x)"
      by (intro round_fin_mono_nonneg) auto
    then show ?thesis by (simp add: round_fin_minus)
  qed
qed

lemma round_fin_idem_nonneg:
  assumes "0 \<le> x" "x < 2 ^ 128" "round_fin x < 2 ^ 128"
  shows "round_fin (round_fin x) = round_fin x"
proof -
  define y where "y = round_fin x"
  define e where "e = expo x"
  have y0: "0 \<le> y" unfolding y_def by (rule round_fin_nonneg [OF assms(1)])
  have up: "y \<le> 2 powi (e + 1)" unfolding y_def e_def by (rule round_fin_upper [OF assms(1,2)])
  have e: "- 126 \<le> e" "e \<le> 127" unfolding e_def by (rule expo_bounds [OF assms(1,2)])+
  have yq: "y = of_int (rhe (x / quantum x)) * quantum x"
    unfolding y_def by (rule round_fin_nonneg_eq [OF assms(1)])
  have qx: "quantum x = 2 powi (e - 23)" using assms(1) by (simp add: quantum_def e_def)
  show ?thesis
  proof (cases "y < 2 powi (e + 1)")
    case True
    have "expo y = e"
    proof (rule expo_unique [OF y0 e True])
      assume "- 126 < e"
      then show "2 powi e \<le> y"
        unfolding y_def e_def by (rule round_fin_lower [OF assms(1,2)])
    qed
    then have "quantum y = quantum x" using y0 qx by (simp add: quantum_def)
    then have "round_fin y = of_int (rhe (of_int (rhe (x / quantum x)))) * quantum x"
      using y0 yq quantum_pos [of x] by (simp add: round_fin_nonneg_eq)
    then show ?thesis using yq by (simp add: rhe_of_int y_def)
  next
    case False
    with up have yv: "y = 2 powi (e + 1)" by simp
    with assms(3) have "(2::real) powi (e + 1) < 2 powi 128" by (simp add: y_def)
    then have "e + 1 < 128" by (simp only: p2_less_iff)
    then have e1: "e + 1 \<le> 127" by simp
    have "y < 2 powi (e + 1 + 1)" unfolding yv by (subst p2_less_iff) simp
    moreover have "- 126 \<le> e + 1" using e(1) by simp
    ultimately have "expo y = e + 1"
      using e1 yv by (intro expo_unique [OF y0]) simp_all
    then have qy: "quantum y * 2 ^ 23 = y"
      using quantum_scale(2) [of y] y0 yv by simp
    have "y / quantum y = of_int (2 ^ 23)"
      using qy quantum_pos [of y] by (simp add: field_simps)
    then have "rhe (y / quantum y) = 2 ^ 23" by (simp only: rhe_of_int)
    then have "round_fin y = 2 ^ 23 * quantum y"
      using y0 by (simp add: round_fin_nonneg_eq)
    with qy show ?thesis by (simp add: y_def mult.commute)
  qed
qed

lemma round_fin_idem:
  assumes "\<bar>x\<bar> < 2 ^ 128" "\<bar>round_fin x\<bar> < 2 ^ 128"
  shows "round_fin (round_fin x) = round_fin x"
proof (cases "0 \<le> x")
  case True
  with assms round_fin_nonneg [OF True] show ?thesis
    by (intro round_fin_idem_nonneg) auto
next
  case False
  then have n: "0 \<le> - x" by simp
  from assms have "round_fin (round_fin (- x)) = round_fin (- x)"
    by (intro round_fin_idem_nonneg [OF n]) (auto simp: round_fin_minus)
  then show ?thesis by (simp add: round_fin_minus)
qed

lemma round32_not_nan [simp]: "round32 x \<noteq> NaN" "\<not> isnan (round32 x)"
  by (simp_all add: round32_def Let_def)

lemma round32_Fin:
  "round32 x = Fin v \<longleftrightarrow> \<bar>x\<bar> < 2 ^ 128 \<and> v = round_fin x \<and> \<bar>v\<bar> < 2 ^ 128"
  by (auto simp: round32_def Let_def)

lemma round32_PInf: "round32 x = PInf \<longleftrightarrow> 2 ^ 128 \<le> x \<or> (\<bar>x\<bar> < 2 ^ 128 \<and> 2 ^ 128 \<le> round_fin x)"
  by (auto simp: round32_def Let_def)

lemma round32_NInf: "round32 x = NInf \<longleftrightarrow> x \<le> - (2 ^ 128) \<or> (\<bar>x\<bar> < 2 ^ 128 \<and> round_fin x \<le> - (2 ^ 128))"
  by (auto simp: round32_def Let_def)

lemma round32_idem: "round32 x = Fin v \<Longrightarrow> round32 v = Fin v"
  using round_fin_idem [of x] by (auto simp: round32_Fin)

lemma round32_mono:
  assumes "x \<le> y" shows "fle (round32 x) (round32 y)"
proof -
  consider "2 ^ 128 \<le> y" | "x \<le> - (2 ^ 128)" | "\<bar>x\<bar> < 2 ^ 128" "\<bar>y\<bar> < 2 ^ 128"
    using assms by linarith
  then show ?thesis
  proof cases
    case 1
    then have "round32 y = PInf" by (simp add: round32_PInf)
    then show ?thesis by (cases "round32 x") (simp_all add: fle_def)
  next
    case 2
    then have "round32 x = NInf" by (simp add: round32_NInf)
    then show ?thesis by (cases "round32 y") (simp_all add: fle_def)
  next
    case 3
    then have "round_fin x \<le> round_fin y" by (intro round_fin_mono assms)
    with 3 show ?thesis by (auto simp: round32_def Let_def fle_def)
  qed
qed

lemma round32_0 [simp]: "round32 0 = Fin 0"
  by (simp add: round32_def round_fin_def)

lemma round32_1 [simp]: "round32 1 = Fin 1"
  by (simp add: f32_eval)

lemma round32_255 [simp]: "round32 255 = Fin 255"
  by (simp add: f32_eval)

section \<open>The order of the format and the scaling of one cell\<close>

lemma fle_Fin [simp]: "fle (Fin a) (Fin b) \<longleftrightarrow> a \<le> b"
  by (auto simp: fle_def)

lemma fle_PInf [simp]: "\<not> isnan x \<Longrightarrow> fle x PInf"
  by (cases x) (simp_all add: fle_def)

lemma fle_NInf [simp]: "\<not> isnan x \<Longrightarrow> fle NInf x"
  by (cases x) (simp_all add: fle_def)

lemma fle_not_nan: "fle x y \<Longrightarrow> \<not> isnan x \<and> \<not> isnan y"
  by (cases x; cases y) (simp_all add: fle_def)

lemma fle_trans: "fle x y \<Longrightarrow> fle y z \<Longrightarrow> fle x z"
  by (cases x; cases y; cases z) (auto simp: fle_def)

lemma fle_refl: "\<not> isnan x \<Longrightarrow> fle x x"
  by (cases x) (simp_all add: fle_def)

lemma flt_fle: "flt x y \<Longrightarrow> fle x y"
  by (simp add: fle_def)

lemma fle_total: "\<not> isnan x \<Longrightarrow> \<not> isnan y \<Longrightarrow> fle x y \<or> fle y x"
  by (cases x; cases y) (auto simp: fle_def)

lemma round32_nonneg: "0 \<le> x \<Longrightarrow> \<not> is_neg (round32 x)"
  using round32_mono [of 0 x] by (cases "round32 x") (auto simp: fle_def)

text \<open>Clip and fallback leave a number in the unit interval.\<close>

lemma clip_fallback:
  "np_nan_to_num (np_clip z (Fin 0) (Fin 1)) 0 1 0 =
     Fin (case z of NaN \<Rightarrow> 0 | NInf \<Rightarrow> 0 | PInf \<Rightarrow> 1 | Fin v \<Rightarrow> min 1 (max 0 v))"
  by (cases z) (auto simp: np_clip_def)

lemma unit_scaled_range: "\<exists>u. unit_scaled lo hi x = Fin u \<and> 0 \<le> u \<and> u \<le> 1"
  unfolding unit_scaled_def clip_fallback
  by (cases "fdiv (fsub x lo) (fsub hi lo)") simp_all

lemma times_255:
  assumes "0 \<le> u" "u \<le> 1"
  shows "\<exists>w. fmul (Fin u) (Fin 255) = Fin w \<and> 0 \<le> w \<and> w \<le> 255"
proof -
  have "fle (round32 0) (round32 (u * 255))" "fle (round32 (u * 255)) (round32 255)"
    using assms by (intro round32_mono; simp)+
  then show ?thesis
    by (cases "round32 (u * 255)") (auto simp: fle_def)
qed

lemma times_255_mono:
  assumes "u \<le> v" "fmul (Fin u) (Fin 255) = Fin a" "fmul (Fin v) (Fin 255) = Fin b"
  shows "a \<le> b"
  using round32_mono [of "u * 255" "v * 255"] assms by simp

lemma scaled_value:
  "\<exists>w. fmul (unit_scaled lo hi x) (Fin 255) = Fin w \<and> 0 \<le> w \<and> w \<le> 255"
  using unit_scaled_range [of lo hi x] times_255 by metis

lemma uint_byte: "0 \<le> n \<Longrightarrow> n \<le> 255 \<Longrightarrow> uint (word_of_int n :: 8 word) = n"
  by (simp add: uint_word_of_int)

lemma scale_cell_floor:
  assumes "fmul (unit_scaled lo hi x) (Fin 255) = Fin w"
  shows "uint (scale_cell lo hi x) = \<lfloor>w\<rfloor>"
proof -
  from scaled_value [of lo hi x] assms have w: "0 \<le> w" "w \<le> 255" by auto
  then have "0 \<le> \<lfloor>w\<rfloor>" "\<lfloor>w\<rfloor> \<le> 255" by (simp_all add: floor_le_iff)
  then show ?thesis
    using w assms by (simp add: scale_cell_def trunc_def uint_byte)
qed

section \<open>The conversion as a whole\<close>

lemma concat_apply_nodata: "concat (apply_nodata nd band) = [] \<longleftrightarrow> concat band = []"
  by (cases nd) (simp_all add: apply_nodata_def mask_nodata_def map_concat [symmetric])

lemma shape_apply_nodata: "map length (apply_nodata nd band) = map length band"
  by (cases nd) (simp_all add: apply_nodata_def mask_nodata_def)

lemma convert_Inr:
  assumes "convert_tiff_to_heightmap band nd = Inr (st, out)"
  shows "np_nanmin (apply_nodata nd band) = Inr (data_min st)"
    "np_nanmax (apply_nodata nd band) = Inr (data_max st)"
    "data_mean st = np_nanmean (apply_nodata nd band)"
    "data_stddev st = np_nanstd (apply_nodata nd band)"
    "elevation_range st = fsub (data_max st) (data_min st)"
    "out = (if np_isclose (data_min st) (data_max st)
            then map (map (\<lambda>x. 128)) (apply_nodata nd band)
            else map (map (scale_cell (data_min st) (data_max st))) (apply_nodata nd band))"
  using assms
  by (auto simp: convert_tiff_to_heightmap_def Let_def split: sum.splits)

lemma convert_returns:
  assumes "concat band \<noteq> []"
  shows "\<exists>st out. convert_tiff_to_heightmap band nd = Inr (st, out)"
proof -
  from assms obtain x xs where "concat (apply_nodata nd band) = x # xs"
    using concat_apply_nodata [of nd band] by (cases "concat (apply_nodata nd band)") auto
  then show ?thesis
    by (simp add: convert_tiff_to_heightmap_def np_nanmin_def np_nanmax_def Let_def)
qed

lemma convert_shape:
  assumes "convert_tiff_to_heightmap band nd = Inr (st, out)"
  shows "map length out = map length band"
  using convert_Inr(6) [OF assms] shape_apply_nodata [of nd band]
  by (auto simp: comp_def split: if_splits)

lemma foldl_fmin_nan: "\<forall>x \<in> set xs. isnan x \<Longrightarrow> foldl np_fmin NaN xs = NaN"
  by (induction xs) (auto simp: np_fmin_def elim: isnan.elims)

lemma foldl_fmax_nan: "\<forall>x \<in> set xs. isnan x \<Longrightarrow> foldl np_fmax NaN xs = NaN"
  by (induction xs) (auto simp: np_fmax_def elim: isnan.elims)

lemma isnan_iff: "isnan x \<longleftrightarrow> x = NaN"
  by (cases x) simp_all

lemma not_isclose_nan: "\<not> np_isclose NaN NaN"
  by (simp add: np_isclose_def fsub_def fle_def)

lemma scale_cell_nan: "scale_cell NaN NaN x = 0"
  by (cases x) (simp_all add: scale_cell_def unit_scaled_def fsub_def np_clip_def trunc_def)

lemma isclose_0_2: "\<not> np_isclose (Fin 0) (Fin 2)"
  by (simp add: np_eval f32_eval)

lemma round32_minus: "round32 (- x) = fneg (round32 x)"
  by (auto simp: round32_def Let_def round_fin_minus)

lemma fmin_fmax_step:
  assumes "(isnan a \<and> isnan b) \<or> fle a b"
  shows "(isnan (np_fmin a x) \<and> isnan (np_fmax b x)) \<or> fle (np_fmin a x) (np_fmax b x)"
  using assms by (cases a; cases b; cases x) (auto simp: fle_def np_fmin_def np_fmax_def)

lemma foldl_fmin_fmax:
  "(isnan a \<and> isnan b) \<or> fle a b \<Longrightarrow>
   (isnan (foldl np_fmin a xs) \<and> isnan (foldl np_fmax b xs))
     \<or> fle (foldl np_fmin a xs) (foldl np_fmax b xs)"
proof (induction xs arbitrary: a b)
  case Nil
  then show ?case by simp
next
  case (Cons x xs)
  from Cons.IH [OF fmin_fmax_step [OF Cons.prems]] show ?case by simp
qed

lemma nanmin_le_nanmax:
  assumes "np_nanmin data = Inr lo" "np_nanmax data = Inr hi"
  shows "(isnan lo \<and> isnan hi) \<or> fle lo hi"
proof -
  from assms obtain x xs where "concat data = x # xs"
    "lo = foldl np_fmin x xs" "hi = foldl np_fmax x xs"
    by (auto simp: np_nanmin_def np_nanmax_def split: list.splits)
  moreover have "(isnan x \<and> isnan x) \<or> fle x x"
    by (cases x) (simp_all add: fle_def)
  ultimately show ?thesis using foldl_fmin_fmax by blast
qed

lemma range_not_negative:
  assumes "(isnan lo \<and> isnan hi) \<or> fle lo hi"
  shows "\<not> is_neg (fsub hi lo)"
proof (cases lo; cases hi)
  fix l h assume "lo = Fin l" "hi = Fin h"
  with assms show ?thesis
    using round32_nonneg [of "h - l"] by (simp add: fsub_def)
qed (use assms in \<open>simp_all add: fsub_def fle_def\<close>)

lemma fsub_finite: "fsub a b = Fin d \<Longrightarrow> \<exists>x y. a = Fin x \<and> b = Fin y"
  by (cases a; cases b) (simp_all add: fsub_def)

lemma clip_fallback_mono:
  assumes "fle z z'"
  shows "(case z of NaN \<Rightarrow> 0 | NInf \<Rightarrow> 0 | PInf \<Rightarrow> 1 | Fin v \<Rightarrow> min 1 (max 0 v))
       \<le> (case z' of NaN \<Rightarrow> (0::real) | NInf \<Rightarrow> 0 | PInf \<Rightarrow> 1 | Fin v \<Rightarrow> min 1 (max 0 v))"
  using assms by (cases z; cases z') (auto simp: fle_def)

lemma fsub_mono:
  assumes "fle x y"
  shows "fle (fsub x (Fin l)) (fsub y (Fin l))"
proof (cases x; cases y)
  fix a b assume "x = Fin a" "y = Fin b"
  with assms show ?thesis
    using round32_mono [of "a - l" "b - l"] by (simp add: fsub_def)
next
  fix a assume "x = Fin a" "y = PInf"
  then show ?thesis by (simp add: fsub_def)
next
  fix b assume "x = NInf" "y = Fin b"
  then show ?thesis by (simp add: fsub_def)
qed (use assms in \<open>simp_all add: fsub_def fle_def\<close>)

lemma fdiv_mono:
  assumes "fle n n'" "0 < d"
  shows "fle (fdiv n (Fin d)) (fdiv n' (Fin d))"
proof (cases n; cases n')
  fix a b assume "n = Fin a" "n' = Fin b"
  with assms show ?thesis
    using round32_mono [of "a / d" "b / d"] by (simp add: divide_right_mono)
next
  fix a assume "n = Fin a" "n' = PInf"
  with assms show ?thesis by (simp add: signed_inf_def)
next
  fix b assume "n = NInf" "n' = Fin b"
  with assms show ?thesis by (simp add: signed_inf_def)
qed (use assms in \<open>simp_all add: fle_def signed_inf_def\<close>)

lemma unit_scaled_mono:
  assumes "\<not> is_neg (fsub hi lo)" "fle x y"
  shows "\<exists>u v. unit_scaled lo hi x = Fin u \<and> unit_scaled lo hi y = Fin v \<and> u \<le> v"
proof (cases "fsub hi lo")
  case NaN
  then show ?thesis
    by (cases "fsub x lo"; cases "fsub y lo") (simp_all add: unit_scaled_def clip_fallback)
next
  case NInf
  with assms show ?thesis by simp
next
  case PInf
  then show ?thesis
    by (cases "fsub x lo"; cases "fsub y lo") (simp_all add: unit_scaled_def clip_fallback)
next
  case (Fin d)
  with assms(1) have d: "0 \<le> d" by simp
  from fsub_finite [OF Fin] obtain l where lo: "lo = Fin l" by blast
  have n: "fle (fsub x lo) (fsub y lo)" unfolding lo by (rule fsub_mono [OF assms(2)])
  show ?thesis
  proof (cases "d = 0")
    case False
    with d have "0 < d" by simp
    from clip_fallback_mono [OF fdiv_mono [OF n this]] show ?thesis
      by (simp add: unit_scaled_def clip_fallback Fin)
  next
    case True
    from n show ?thesis
      by (cases "fsub x lo"; cases "fsub y lo")
        (auto simp: unit_scaled_def clip_fallback Fin True signed_inf_def fle_def)
  qed
qed

lemma scale_cell_mono:
  assumes "\<not> is_neg (fsub hi lo)" "fle x y"
  shows "scale_cell lo hi x \<le> scale_cell lo hi y"
proof -
  from unit_scaled_mono [OF assms] obtain u v
    where uv: "unit_scaled lo hi x = Fin u" "unit_scaled lo hi y = Fin v" "u \<le> v" by blast
  from scaled_value [of lo hi x] scaled_value [of lo hi y] obtain a b
    where ab: "fmul (unit_scaled lo hi x) (Fin 255) = Fin a"
      "fmul (unit_scaled lo hi y) (Fin 255) = Fin b" by blast
  from times_255_mono [OF uv(3)] ab uv have "a \<le> b" by simp
  then have "\<lfloor>a\<rfloor> \<le> \<lfloor>b\<rfloor>" by (rule floor_mono)
  with scale_cell_floor [OF ab(1)] scale_cell_floor [OF ab(2)] show ?thesis
    by (simp add: word_le_def)
qed

lemma cell_of_image:
  assumes "convert_tiff_to_heightmap band nd = Inr (st, out)"
    and "i < length band" and "j < length (band ! i)"
  shows "out ! i ! j =
     (if np_isclose (data_min st) (data_max st) then 128
      else scale_cell (data_min st) (data_max st) (apply_nodata nd band ! i ! j))"
proof -
  define data where "data = apply_nodata nd band"
  have len: "i < length data" "j < length (data ! i)"
    using shape_apply_nodata [of nd band] assms(2,3)
    by (metis data_def length_map nth_map)+
  with convert_Inr(6) [OF assms(1)] show ?thesis
    by (simp add: data_def [symmetric])
qed

lemma atol_value: "atol = Fin (11258999 / 1125899906842624)"
  by (simp add: atol_def f32_eval)

lemma rtol_value: "rtol = Fin (2748779 / 274877906944)"
  by (simp add: rtol_def f32_eval)

lemma feq_eq: "feq x y \<longleftrightarrow> x = y \<and> \<not> isnan x"
  by (cases x; cases y) auto

lemma tolerance_not_negative: "fle (Fin 0) (fadd atol (fmul rtol (Fin \<bar>h\<bar>)))"
proof -
  define r :: real where "r = 2748779 / 274877906944"
  define a :: real where "a = 11258999 / 1125899906842624"
  have ra: "0 \<le> r" "0 \<le> a" by (simp_all add: r_def a_def)
  then have nn: "\<not> is_neg (round32 (r * \<bar>h\<bar>))" by (intro round32_nonneg) simp
  show ?thesis
  proof (cases "round32 (r * \<bar>h\<bar>)")
    case (Fin t)
    with nn have "0 \<le> a + t" using ra by simp
    from round32_mono [OF this] Fin show ?thesis
      by (simp add: atol_value rtol_value r_def a_def)
  next
    case PInf
    then show ?thesis by (simp add: atol_value rtol_value r_def fle_def)
  next
    case NInf
    with nn show ?thesis by simp
  next
    case NaN
    then show ?thesis by simp
  qed
qed

lemma zero_range_isclose:
  assumes "fsub hi lo = Fin 0"
  shows "np_isclose lo hi"
proof -
  from fsub_finite [OF assms] obtain h l where hl: "hi = Fin h" "lo = Fin l" by blast
  with assms have "round32 (h - l) = Fin 0" by (simp add: fsub_def)
  then have "fneg (round32 (h - l)) = Fin 0" by simp
  then have "round32 (l - h) = Fin 0" using round32_minus [of "h - l"] by simp
  then have "fabs (fsub lo hi) = Fin 0" by (simp add: hl fsub_def)
  with tolerance_not_negative [of h] show ?thesis
    by (simp add: np_isclose_def hl)
qed

lemma scale_cell_min: "scale_cell lo hi lo = 0"
proof -
  have "fsub lo lo = NaN \<or> fsub lo lo = Fin 0"
    by (cases lo) (simp_all add: fsub_def)
  then have "fdiv (fsub lo lo) (fsub hi lo) = NaN \<or> fdiv (fsub lo lo) (fsub hi lo) = Fin 0"
    by (cases "fsub hi lo") (auto split: if_splits)
  then have "unit_scaled lo hi lo = Fin 0"
    by (auto simp: unit_scaled_def clip_fallback)
  then show ?thesis by (simp add: scale_cell_def trunc_def)
qed

lemma scale_cell_max:
  assumes "fsub hi lo = Fin d" "d \<noteq> 0"
  shows "scale_cell lo hi hi = 255"
proof -
  from assms have "fdiv (fsub hi lo) (fsub hi lo) = Fin 1" by simp
  then have "unit_scaled lo hi hi = Fin 1"
    by (simp add: unit_scaled_def clip_fallback)
  then show ?thesis by (simp add: scale_cell_def trunc_def)
qed

declare unrolled.simps [simp del]

declare pairwise_sum.simps [simp del]

lemma round_fin_small_int:
  assumes "0 < k" "k < 2 ^ 24"
  shows "round_fin (real_of_int k) = real_of_int k"
proof -
  define x where "x = real_of_int k"
  define e where "e = expo x"
  have x1: "1 \<le> x" using assms(1) by (simp add: x_def)
  have "real_of_int k < real_of_int (2 ^ 24)" using assms(2) by (simp only: of_int_less_iff)
  then have x2: "x < 2 ^ 24" by (simp add: x_def)
  have x0: "0 \<le> x" using x1 by simp
  have x3: "x < 2 ^ 128" using x2 by simp
  note b = expo_bounds [OF x0 x3, folded e_def]
  have "(2::real) powi 0 < 2 powi (e + 1)" using x1 b(3) by simp
  then have "0 < e + 1" by (simp only: p2_less_iff)
  then have e0: "0 \<le> e" by simp
  with b(4) have "2 powi e \<le> x" by simp
  with x2 have "(2::real) powi e < 2 powi 24" by simp
  then have "e < 24" by (simp only: p2_less_iff)
  then have e1: "e \<le> 23" by simp
  define d where "d = nat (23 - e)"
  have "(2::real) powi ((e - 23) + (23 - e)) = 2 powi (e - 23) * 2 powi (23 - e)"
    by (rule power_int_add) simp
  moreover have "(2::real) powi (23 - e) = 2 ^ d"
    using e1 by (simp add: d_def power_int_def)
  moreover have "quantum x = 2 powi (e - 23)"
    using x0 by (simp add: quantum_def e_def)
  ultimately have q: "quantum x * 2 ^ d = 1" by simp
  then have qv: "quantum x = 1 / 2 ^ d" by (simp add: field_simps)
  have "x / quantum x = x * 2 ^ d" by (simp add: qv)
  then have "x / quantum x = real_of_int (k * 2 ^ d)" by (simp add: x_def)
  then have "rhe (x / quantum x) = k * 2 ^ d" by (simp only: rhe_of_int)
  then have "round_fin x = real_of_int (k * 2 ^ d) * quantum x"
    using x0 by (simp add: round_fin_nonneg_eq)
  also have "\<dots> = x * 2 ^ d * quantum x" by (simp add: x_def)
  also have "\<dots> = x" using q by (simp add: mult.assoc mult.commute)
  finally show ?thesis by (simp add: x_def)
qed

lemma round32_small_int:
  assumes "0 \<le> k" "k \<le> 2 ^ 24"
  shows "round32 (real_of_int k) = Fin (real_of_int k)"
proof -
  consider "k = 0" | "k = 2 ^ 24" | "0 < k" "k < 2 ^ 24" using assms by linarith
  then show ?thesis
  proof cases
    case 1
    then show ?thesis by simp
  next
    case 2
    have "round32 16777216 = Fin 16777216" by (simp add: f32_eval)
    with 2 show ?thesis by simp
  next
    case 3
    then have r: "round_fin (real_of_int k) = real_of_int k" by (rule round_fin_small_int)
    have "real_of_int k < real_of_int (2 ^ 24)" using 3(2) by (simp only: of_int_less_iff)
    then have "\<bar>real_of_int k\<bar> < 2 ^ 128" using 3(1) by simp
    with r show ?thesis by (simp add: round32_Fin)
  qed
qed

lemma round32_int:
  assumes "\<bar>k\<bar> \<le> 2 ^ 24"
  shows "round32 (real_of_int k) = Fin (real_of_int k)"
proof (cases "0 \<le> k")
  case True
  with assms show ?thesis by (intro round32_small_int) simp_all
next
  case False
  with assms have "round32 (real_of_int (- k)) = Fin (real_of_int (- k))"
    by (intro round32_small_int) simp_all
  then have "fneg (round32 (real_of_int k)) = Fin (- real_of_int k)"
    by (simp add: round32_minus)
  then show ?thesis by (cases "round32 (real_of_int k)") simp_all
qed

lemma fadd_int:
  "\<bar>a + b\<bar> \<le> 2 ^ 24 \<Longrightarrow>
   fadd (Fin (real_of_int a)) (Fin (real_of_int b)) = Fin (real_of_int (a + b))"
  using round32_int [of "a + b"] by simp

lemma abs_sum_nonneg: "0 \<le> abs_sum ks"
  by (induction ks) (simp_all add: abs_sum_def)

lemma abs_sum_list: "\<bar>sum_list ks\<bar> \<le> abs_sum ks"
  by (induction ks) (auto simp: abs_sum_def)

lemma foldl_int:
  "\<bar>a\<bar> + abs_sum ks \<le> 2 ^ 24 \<Longrightarrow>
   foldl fadd (Fin (real_of_int a)) (int_cells ks) = Fin (real_of_int (a + sum_list ks))"
proof (induction ks arbitrary: a)
  case Nil
  then show ?case by (simp add: int_cells_def)
next
  case (Cons k ks)
  from Cons.prems abs_sum_nonneg [of ks] have 1: "\<bar>a + k\<bar> \<le> 2 ^ 24"
    by (simp add: abs_sum_def)
  from Cons.prems have 2: "\<bar>a + k\<bar> + abs_sum ks \<le> 2 ^ 24"
    by (simp add: abs_sum_def)
  from Cons.IH [OF 2] fadd_int [OF 1] show ?case
    by (simp add: int_cells_def add.assoc)
qed

lemma int_cells_simps [simp]:
  "int_cells [] = []" "int_cells (k # ks) = Fin (real_of_int k) # int_cells ks"
  "length (int_cells ks) = length ks"
  "take n (int_cells ks) = int_cells (take n ks)"
  "drop n (int_cells ks) = int_cells (drop n ks)"
  by (simp_all add: int_cells_def take_map drop_map)

lemma abs_sum_simps [simp]:
  "abs_sum [] = 0" "abs_sum (k # ks) = \<bar>k\<bar> + abs_sum ks"
  "abs_sum (ks @ js) = abs_sum ks + abs_sum js"
  by (simp_all add: abs_sum_def)

lemma abs_sum_take_drop: "abs_sum (take n ks) + abs_sum (drop n ks) = abs_sum ks"
  using abs_sum_simps(3) [of "take n ks" "drop n ks"] by simp

lemma sum_list_take_drop: "sum_list (take n ks) + sum_list (drop n ks) = (sum_list ks :: int)"
  using sum_list_append [of "take n ks" "drop n ks"] by simp

lemma map2_int:
  "length rs = length ts \<Longrightarrow> abs_sum rs + abs_sum ts \<le> 2 ^ 24 \<Longrightarrow>
   map2 fadd (int_cells rs) (int_cells ts) = int_cells (map2 (+) rs ts)"
proof (induction rs ts rule: list_induct2)
  case Nil
  then show ?case by simp
next
  case (Cons r rs t ts)
  from Cons.prems abs_sum_nonneg [of rs] abs_sum_nonneg [of ts]
  have 1: "\<bar>r + t\<bar> \<le> 2 ^ 24" and 2: "abs_sum rs + abs_sum ts \<le> 2 ^ 24" by simp_all
  from Cons.IH [OF 2] fadd_int [OF 1] show ?case by simp
qed

lemma map2_sum:
  "length rs = length ts \<Longrightarrow> sum_list (map2 (+) rs ts) = sum_list rs + (sum_list ts :: int)"
  by (induction rs ts rule: list_induct2) simp_all

lemma map2_abs_sum:
  "length rs = length ts \<Longrightarrow> abs_sum (map2 (+) rs ts) \<le> abs_sum rs + abs_sum ts"
  by (induction rs ts rule: list_induct2) auto

lemma unrolled_int:
  "length rs = 8 \<Longrightarrow> abs_sum rs + abs_sum ks \<le> 2 ^ 24 \<Longrightarrow>
   \<exists>rs' ks'. unrolled (int_cells rs) (int_cells ks) = (int_cells rs', int_cells ks')
     \<and> length rs' = 8
     \<and> sum_list rs' + sum_list ks' = sum_list rs + sum_list ks
     \<and> abs_sum rs' + abs_sum ks' \<le> abs_sum rs + abs_sum ks"
proof (induction "length ks" arbitrary: rs ks rule: less_induct)
  case less
  show ?case
  proof (cases "length ks < 8")
    case True
    then have "unrolled (int_cells rs) (int_cells ks) = (int_cells rs, int_cells ks)"
      by (subst unrolled.simps) simp
    with less.prems show ?thesis by blast
  next
    case False
    define ts where "ts = take 8 ks"
    define js where "js = drop 8 ks"
    define rs1 where "rs1 = map2 (+) rs ts"
    have lt: "length ts = 8" using False by (simp add: ts_def)
    have len: "length rs = length ts" using less.prems(1) lt by simp
    have ab: "abs_sum ts + abs_sum js = abs_sum ks"
      unfolding ts_def js_def by (rule abs_sum_take_drop)
    have su: "sum_list ts + sum_list js = sum_list ks"
      unfolding ts_def js_def by (rule sum_list_take_drop)
    from less.prems(2) ab abs_sum_nonneg [of js]
    have b1: "abs_sum rs + abs_sum ts \<le> 2 ^ 24" by linarith
    have m: "map2 fadd (int_cells rs) (int_cells ts) = int_cells rs1"
      unfolding rs1_def by (rule map2_int [OF len b1])
    have l1: "length rs1 = 8" using len lt by (simp add: rs1_def)
    have a1: "abs_sum rs1 \<le> abs_sum rs + abs_sum ts"
      unfolding rs1_def by (rule map2_abs_sum [OF len])
    have s1: "sum_list rs1 = sum_list rs + sum_list ts"
      unfolding rs1_def by (rule map2_sum [OF len])
    have b2: "abs_sum rs1 + abs_sum js \<le> 2 ^ 24"
      using a1 ab less.prems(2) by linarith
    have "length js < length ks" using False by (simp add: js_def)
    from less.hyps [OF this l1 b2] obtain rs' ks'
      where r: "unrolled (int_cells rs1) (int_cells js) = (int_cells rs', int_cells ks')"
        "length rs' = 8" "sum_list rs' + sum_list ks' = sum_list rs1 + sum_list js"
        "abs_sum rs' + abs_sum ks' \<le> abs_sum rs1 + abs_sum js" by blast
    have "unrolled (int_cells rs) (int_cells ks) = unrolled (int_cells rs1) (int_cells js)"
      using False m by (subst unrolled.simps) (simp add: ts_def js_def)
    with r(1) have "unrolled (int_cells rs) (int_cells ks) = (int_cells rs', int_cells ks')"
      by simp
    moreover have "sum_list rs' + sum_list ks' = sum_list rs + sum_list ks"
      using r(3) s1 su by linarith
    moreover have "abs_sum rs' + abs_sum ks' \<le> abs_sum rs + abs_sum ks"
      using r(4) a1 ab by linarith
    ultimately show ?thesis using r(2) by blast
  qed
qed

lemma list8:
  assumes "length rs = 8"
  shows "\<exists>a b c d e f g h. rs = [a, b, c, d, e, f, g, h]"
  using assms by (auto simp: numeral_eq_Suc length_Suc_conv)

lemma combine8_int:
  assumes "length rs = 8" "abs_sum rs \<le> 2 ^ 24"
  shows "combine8 (int_cells rs) = Fin (real_of_int (sum_list rs))"
proof -
  from list8 [OF assms(1)] obtain a b c d e f g h
    where rs: "rs = [a, b, c, d, e, f, g, h]" by blast
  define na nb nc nd ne nf ng nh
    where n: "na = \<bar>a\<bar>" "nb = \<bar>b\<bar>" "nc = \<bar>c\<bar>" "nd = \<bar>d\<bar>"
      "ne = \<bar>e\<bar>" "nf = \<bar>f\<bar>" "ng = \<bar>g\<bar>" "nh = \<bar>h\<bar>"
  have nn: "0 \<le> na" "0 \<le> nb" "0 \<le> nc" "0 \<le> nd" "0 \<le> ne" "0 \<le> nf" "0 \<le> ng" "0 \<le> nh"
    by (simp_all add: n)
  from assms(2) have t: "na + nb + nc + nd + ne + nf + ng + nh \<le> 2 ^ 24"
    by (simp add: rs n)
  have ab: "\<bar>a + b\<bar> \<le> na + nb" and cd: "\<bar>c + d\<bar> \<le> nc + nd"
    and ef: "\<bar>e + f\<bar> \<le> ne + nf" and gh: "\<bar>g + h\<bar> \<le> ng + nh"
    unfolding n by (rule abs_triangle_ineq)+
  have abcd: "\<bar>(a + b) + (c + d)\<bar> \<le> na + nb + nc + nd"
    using abs_triangle_ineq [of "a + b" "c + d"] ab cd by linarith
  have efgh: "\<bar>(e + f) + (g + h)\<bar> \<le> ne + nf + ng + nh"
    using abs_triangle_ineq [of "e + f" "g + h"] ef gh by linarith
  have al: "\<bar>((a + b) + (c + d)) + ((e + f) + (g + h))\<bar> \<le> 2 ^ 24"
    using abs_triangle_ineq [of "(a + b) + (c + d)" "(e + f) + (g + h)"] abcd efgh t by linarith
  have 1: "fadd (Fin (real_of_int a)) (Fin (real_of_int b)) = Fin (real_of_int (a + b))"
    by (rule fadd_int) (use ab nn t in linarith)
  have 2: "fadd (Fin (real_of_int c)) (Fin (real_of_int d)) = Fin (real_of_int (c + d))"
    by (rule fadd_int) (use cd nn t in linarith)
  have 3: "fadd (Fin (real_of_int e)) (Fin (real_of_int f)) = Fin (real_of_int (e + f))"
    by (rule fadd_int) (use ef nn t in linarith)
  have 4: "fadd (Fin (real_of_int g)) (Fin (real_of_int h)) = Fin (real_of_int (g + h))"
    by (rule fadd_int) (use gh nn t in linarith)
  have 5: "fadd (Fin (real_of_int (a + b))) (Fin (real_of_int (c + d)))
      = Fin (real_of_int ((a + b) + (c + d)))"
    by (rule fadd_int) (use abcd nn t in linarith)
  have 6: "fadd (Fin (real_of_int (e + f))) (Fin (real_of_int (g + h)))
      = Fin (real_of_int ((e + f) + (g + h)))"
    by (rule fadd_int) (use efgh nn t in linarith)
  have 7: "fadd (Fin (real_of_int ((a + b) + (c + d)))) (Fin (real_of_int ((e + f) + (g + h))))
      = Fin (real_of_int (((a + b) + (c + d)) + ((e + f) + (g + h))))"
    by (rule fadd_int [OF al])
  show ?thesis
    unfolding rs by (simp only: int_cells_simps combine8.simps 1 2 3 4 5 6 7) simp
qed

lemma pairwise_sum_short: "length xs < 8 \<Longrightarrow> pairwise_sum xs = foldl fadd (Fin 0) xs"
  by (subst pairwise_sum.simps) simp

lemma pairwise_sum_block:
  "8 \<le> length xs \<Longrightarrow> length xs \<le> 128 \<Longrightarrow> pairwise_sum xs = block_sum xs"
  by (subst pairwise_sum.simps) simp

lemma pairwise_sum_split:
  "128 < length xs \<Longrightarrow>
   pairwise_sum xs = fadd (pairwise_sum (take (split_point (length xs)) xs))
                          (pairwise_sum (drop (split_point (length xs)) xs))"
  by (subst pairwise_sum.simps) simp

lemma block_sum_int:
  assumes "8 \<le> length ks" "abs_sum ks \<le> 2 ^ 24"
  shows "block_sum (int_cells ks) = Fin (real_of_int (sum_list ks))"
proof -
  define rs where "rs = take 8 ks"
  define js where "js = drop 8 ks"
  have l: "length rs = 8" using assms(1) by (simp add: rs_def)
  have ab: "abs_sum rs + abs_sum js = abs_sum ks"
    unfolding rs_def js_def by (rule abs_sum_take_drop)
  have su: "sum_list rs + sum_list js = sum_list ks"
    unfolding rs_def js_def by (rule sum_list_take_drop)
  from ab assms(2) have b: "abs_sum rs + abs_sum js \<le> 2 ^ 24" by simp
  from unrolled_int [OF l b] obtain rs' ks'
    where r: "unrolled (int_cells rs) (int_cells js) = (int_cells rs', int_cells ks')"
      "length rs' = 8" "sum_list rs' + sum_list ks' = sum_list rs + sum_list js"
      "abs_sum rs' + abs_sum ks' \<le> abs_sum rs + abs_sum js" by blast
  from r(4) b abs_sum_nonneg [of ks'] have c: "abs_sum rs' \<le> 2 ^ 24" by linarith
  from r(4) b abs_sum_list [of rs'] have f: "\<bar>sum_list rs'\<bar> + abs_sum ks' \<le> 2 ^ 24"
    by linarith
  have "block_sum (int_cells ks) = foldl fadd (combine8 (int_cells rs')) (int_cells ks')"
    using r(1) by (simp add: block_sum_def rs_def js_def)
  also have "\<dots> = Fin (real_of_int (sum_list rs' + sum_list ks'))"
    by (simp only: combine8_int [OF r(2) c] foldl_int [OF f])
  finally show ?thesis using r(3) su by simp
qed

lemma split_point_bounds: "128 < n \<Longrightarrow> 0 < split_point n \<and> split_point n < n"
  by (auto simp: split_point_def)

lemma pairwise_sum_int:
  "abs_sum ks \<le> 2 ^ 24 \<Longrightarrow> pairwise_sum (int_cells ks) = Fin (real_of_int (sum_list ks))"
proof (induction "length ks" arbitrary: ks rule: less_induct)
  case less
  consider "length ks < 8" | "8 \<le> length ks" "length ks \<le> 128" | "128 < length ks"
    by linarith
  then show ?case
  proof cases
    case 1
    from less.prems have "\<bar>0\<bar> + abs_sum ks \<le> 2 ^ 24" by simp
    from foldl_int [OF this] 1 show ?thesis by (simp add: pairwise_sum_short)
  next
    case 2
    with block_sum_int [OF 2(1) less.prems] show ?thesis by (simp add: pairwise_sum_block)
  next
    case 3
    define n where "n = split_point (length ks)"
    from split_point_bounds [OF 3] have n: "0 < n" "n < length ks" by (simp_all add: n_def)
    have ab: "abs_sum (take n ks) + abs_sum (drop n ks) = abs_sum ks"
      by (rule abs_sum_take_drop)
    have su: "sum_list (take n ks) + sum_list (drop n ks) = sum_list ks"
      by (rule sum_list_take_drop)
    from ab less.prems abs_sum_nonneg [of "take n ks"] abs_sum_nonneg [of "drop n ks"]
    have b: "abs_sum (take n ks) \<le> 2 ^ 24" "abs_sum (drop n ks) \<le> 2 ^ 24" by linarith+
    have "length (take n ks) < length ks" "length (drop n ks) < length ks"
      using n by simp_all
    from less.hyps [OF this(1) b(1)] less.hyps [OF this(2) b(2)]
    have t: "pairwise_sum (int_cells (take n ks)) = Fin (real_of_int (sum_list (take n ks)))"
      "pairwise_sum (int_cells (drop n ks)) = Fin (real_of_int (sum_list (drop n ks)))" .
    have "\<bar>sum_list (take n ks) + sum_list (drop n ks)\<bar> \<le> 2 ^ 24"
      using su abs_sum_list [of ks] less.prems by simp
    from fadd_int [OF this] t su 3 show ?thesis
      by (simp add: pairwise_sum_split n_def)
  qed
qed

lemma np_sum_int:
  assumes "abs_sum ks \<le> 2 ^ 24"
  shows "np_sum (int_cells ks) = Fin (real_of_int (sum_list ks))"
proof -
  have "\<bar>0 + sum_list ks\<bar> \<le> 2 ^ 24" using abs_sum_list [of ks] assms by simp
  from fadd_int [OF this] show ?thesis
    by (simp add: np_sum_def pairwise_sum_int [OF assms])
qed

lemma np_sum_short: "length xs < 8 \<Longrightarrow> np_sum xs = fadd (Fin 0) (foldl fadd (Fin 0) xs)"
  by (simp add: np_sum_def pairwise_sum_short)

lemma np_sum_zeros:
  assumes "\<forall>x \<in> set xs. x = Fin 0"
  shows "np_sum xs = Fin 0"
proof -
  from assms have "xs = int_cells (replicate (length xs) 0)"
    by (induction xs) simp_all
  moreover have "abs_sum (replicate n 0) = 0" "sum_list (replicate n (0::int)) = 0" for n
    by (induction n) simp_all
  ultimately show ?thesis
    using np_sum_int [of "replicate (length xs) 0"] by simp
qed

lemma is_valid_masked:
  "is_valid (Some s) x \<longleftrightarrow> \<not> isnan (if feq x (astype_float32 s) then NaN else x)"
  by (simp add: is_valid_def)

lemma concat_masked:
  "concat (apply_nodata nd band) =
     map (\<lambda>x. if is_valid nd x \<or> isnan x then x else NaN) (concat band)"
proof (cases nd)
  case None
  then show ?thesis by (simp add: apply_nodata_def is_valid_def)
next
  case (Some s)
  have "(if feq x (astype_float32 s) then NaN else x) =
      (if is_valid (Some s) x \<or> isnan x then x else NaN)" for x
    by (cases x) (auto simp: is_valid_def)
  then show ?thesis
    by (simp add: Some apply_nodata_def mask_nodata_def map_concat [symmetric])
qed

lemma numbers_of_masked:
  "filter (\<lambda>x. \<not> isnan x) (concat (apply_nodata nd band)) = valid_cells band nd"
proof -
  have "filter (\<lambda>x. \<not> isnan x) (map (\<lambda>x. if is_valid nd x \<or> isnan x then x else NaN) xs)
      = filter (is_valid nd) xs" for xs
    by (induction xs) (auto simp: is_valid_def)
  then show ?thesis by (simp add: concat_masked valid_cells_def)
qed

lemma zero_nans_masked:
  "zero_nans (concat (apply_nodata nd band)) = valid_or_zero nd band"
proof -
  have "(if isnan (if is_valid nd x \<or> isnan x then x else NaN) then Fin 0
         else (if is_valid nd x \<or> isnan x then x else NaN))
      = (if is_valid nd x then x else Fin 0)" for x
    by (auto simp: is_valid_def)
  then show ?thesis
    by (simp add: concat_masked zero_nans_def valid_or_zero_def comp_def)
qed

lemma sq_dev_masked:
  "map (sq_dev m) (concat (apply_nodata nd band)) = squared_deviations nd m band"
proof -
  have "sq_dev m (if is_valid nd x \<or> isnan x then x else NaN)
      = (if is_valid nd x then fmul (fsub x m) (fsub x m) else Fin 0)" for x
    by (auto simp: is_valid_def sq_dev_def)
  then show ?thesis
    by (simp add: concat_masked squared_deviations_def comp_def)
qed

lemma count_masked:
  "count_numbers (concat (apply_nodata nd band)) = length (valid_cells band nd)"
  by (simp add: count_numbers_def numbers_of_masked)

lemma nanmean_masked:
  "np_nanmean (apply_nodata nd band) =
     fdiv (np_sum (valid_or_zero nd band)) (Fin (real (length (valid_cells band nd))))"
  by (simp add: np_nanmean_def Let_def zero_nans_masked count_masked)

lemma nanstd_masked:
  "np_nanstd (apply_nodata nd band) =
     fsqrt (fdiv (np_sum (squared_deviations nd (np_nanmean (apply_nodata nd band)) band))
                 (Fin (real (length (valid_cells band nd)))))"
proof (cases "valid_cells band nd = []")
  case False
  then show ?thesis
    by (simp add: np_nanstd_def np_nanvar_def np_nanmean_def Let_def zero_nans_masked
        count_masked sq_dev_masked)
next
  case True
  then have "\<forall>x \<in> set (concat band). \<not> is_valid nd x"
    by (simp add: valid_cells_def filter_empty_conv)
  then have "\<forall>x \<in> set (squared_deviations nd m band). x = Fin 0" for m
    by (auto simp: squared_deviations_def)
  then have "np_sum (squared_deviations nd m band) = Fin 0" for m
    by (rule np_sum_zeros)
  with True show ?thesis
    by (simp add: np_nanstd_def np_nanvar_def Let_def count_masked)
qed

lemma zero_filled_int:
  assumes "filter P xs = int_cells ks"
    and "\<forall>k \<in> set ks. g (Fin (real_of_int k)) = Fin (real_of_int (h k))"
  shows "\<exists>zs. map (\<lambda>x. if P x then g x else Fin 0) xs = int_cells zs
     \<and> sum_list zs = sum_list (map h ks) \<and> abs_sum zs = abs_sum (map h ks)"
  using assms
proof (induction xs arbitrary: ks)
  case Nil
  then have "ks = []" by (cases ks) simp_all
  then show ?case by (intro exI [of _ "[]"]) simp
next
  case (Cons x xs)
  show ?case
  proof (cases "P x")
    case False
    with Cons.prems have "filter P xs = int_cells ks" by simp
    from Cons.IH [OF this Cons.prems(2)] obtain zs
      where "map (\<lambda>x. if P x then g x else Fin 0) xs = int_cells zs"
        "sum_list zs = sum_list (map h ks)" "abs_sum zs = abs_sum (map h ks)" by blast
    with False show ?thesis by (intro exI [of _ "0 # zs"]) simp
  next
    case True
    with Cons.prems(1) obtain k js where ks: "ks = k # js" "x = Fin (real_of_int k)"
      "filter P xs = int_cells js"
      by (cases ks) simp_all
    from Cons.prems(2) ks(1)
    have "\<forall>k \<in> set js. g (Fin (real_of_int k)) = Fin (real_of_int (h k))" by simp
    from Cons.IH [OF ks(3) this] obtain zs
      where "map (\<lambda>x. if P x then g x else Fin 0) xs = int_cells zs"
        "sum_list zs = sum_list (map h js)" "abs_sum zs = abs_sum (map h js)" by blast
    moreover from Cons.prems(2) ks have "g x = Fin (real_of_int (h k))" by simp
    ultimately show ?thesis using True ks(1) by (intro exI [of _ "h k # zs"]) simp
  qed
qed

lemma valid_sum_exact:
  assumes "valid_cells band nd = int_cells ks" "abs_sum ks \<le> 2 ^ 24"
  shows "np_sum (valid_or_zero nd band) = Fin (real_of_int (sum_list ks))"
proof -
  from zero_filled_int [of "is_valid nd" "concat band" ks "\<lambda>x. x" "\<lambda>k. k"] assms(1)
  obtain zs where "valid_or_zero nd band = int_cells zs" "sum_list zs = sum_list ks"
    "abs_sum zs = abs_sum ks"
    by (auto simp: valid_cells_def valid_or_zero_def)
  with np_sum_int [of zs] assms(2) show ?thesis by simp
qed

lemma nanmean_exact:
  assumes "valid_cells band nd = int_cells ks" "abs_sum ks \<le> 2 ^ 24"
  shows "np_nanmean (apply_nodata nd band) =
     fdiv (Fin (real_of_int (sum_list ks))) (Fin (real (length ks)))"
  using valid_sum_exact [OF assms] assms(1) by (simp add: nanmean_masked)

lemma not_flt_fle: "\<not> isnan a \<Longrightarrow> \<not> isnan b \<Longrightarrow> \<not> flt b a \<Longrightarrow> fle a b"
  by (cases a; cases b) (auto simp: fle_def)

lemma fmin_step:
  assumes "(isnan a \<and> (\<forall>y \<in> set seen. isnan y)) \<or>
    (\<not> isnan a \<and> a \<in> set seen \<and> (\<forall>y \<in> set seen. \<not> isnan y \<longrightarrow> fle a y))"
  shows "(isnan (np_fmin a x) \<and> (\<forall>y \<in> set (seen @ [x]). isnan y)) \<or>
    (\<not> isnan (np_fmin a x) \<and> np_fmin a x \<in> set (seen @ [x])
      \<and> (\<forall>y \<in> set (seen @ [x]). \<not> isnan y \<longrightarrow> fle (np_fmin a x) y))"
proof (cases "isnan a")
  case True
  with assms show ?thesis by (auto simp: np_fmin_def fle_refl)
next
  case a: False
  show ?thesis
  proof (cases "isnan x")
    case True
    with a assms show ?thesis by (auto simp: np_fmin_def)
  next
    case x: False
    show ?thesis
    proof (cases "flt x a")
      case True
      then have "fle x a" by (rule flt_fle)
      with a x True assms show ?thesis
        by (auto simp: np_fmin_def fle_refl intro: fle_trans)
    next
      case False
      with a x have "fle a x" by (intro not_flt_fle)
      with a x False assms show ?thesis by (auto simp: np_fmin_def)
    qed
  qed
qed

lemma fmax_step:
  assumes "(isnan a \<and> (\<forall>y \<in> set seen. isnan y)) \<or>
    (\<not> isnan a \<and> a \<in> set seen \<and> (\<forall>y \<in> set seen. \<not> isnan y \<longrightarrow> fle y a))"
  shows "(isnan (np_fmax a x) \<and> (\<forall>y \<in> set (seen @ [x]). isnan y)) \<or>
    (\<not> isnan (np_fmax a x) \<and> np_fmax a x \<in> set (seen @ [x])
      \<and> (\<forall>y \<in> set (seen @ [x]). \<not> isnan y \<longrightarrow> fle y (np_fmax a x)))"
proof (cases "isnan a")
  case True
  with assms show ?thesis by (auto simp: np_fmax_def fle_refl)
next
  case a: False
  show ?thesis
  proof (cases "isnan x")
    case True
    with a assms show ?thesis by (auto simp: np_fmax_def)
  next
    case x: False
    show ?thesis
    proof (cases "flt a x")
      case True
      then have "fle a x" by (rule flt_fle)
      with a x True assms show ?thesis
        by (auto simp: np_fmax_def fle_refl intro: fle_trans)
    next
      case False
      with a x have "fle x a" by (intro not_flt_fle)
      with a x False assms show ?thesis by (auto simp: np_fmax_def)
    qed
  qed
qed

lemma foldl_fmin_least:
  "(isnan a \<and> (\<forall>y \<in> set seen. isnan y)) \<or>
    (\<not> isnan a \<and> a \<in> set seen \<and> (\<forall>y \<in> set seen. \<not> isnan y \<longrightarrow> fle a y)) \<Longrightarrow>
   least_of (foldl np_fmin a xs) (filter (\<lambda>x. \<not> isnan x) (seen @ xs))"
proof (induction xs arbitrary: a seen)
  case Nil
  then show ?case
    by (auto simp: least_of_def filter_empty_conv)
next
  case (Cons x xs)
  from Cons.IH [OF fmin_step [OF Cons.prems]] show ?case by simp
qed

lemma foldl_fmax_greatest:
  "(isnan a \<and> (\<forall>y \<in> set seen. isnan y)) \<or>
    (\<not> isnan a \<and> a \<in> set seen \<and> (\<forall>y \<in> set seen. \<not> isnan y \<longrightarrow> fle y a)) \<Longrightarrow>
   greatest_of (foldl np_fmax a xs) (filter (\<lambda>x. \<not> isnan x) (seen @ xs))"
proof (induction xs arbitrary: a seen)
  case Nil
  then show ?case
    by (auto simp: greatest_of_def filter_empty_conv)
next
  case (Cons x xs)
  from Cons.IH [OF fmax_step [OF Cons.prems]] show ?case by simp
qed

lemma nanmin_is_least:
  assumes "np_nanmin data = Inr lo"
  shows "least_of lo (filter (\<lambda>x. \<not> isnan x) (concat data))"
proof -
  from assms obtain x xs where c: "concat data = x # xs" and lo: "lo = foldl np_fmin x xs"
    by (auto simp: np_nanmin_def split: list.splits)
  have "(isnan x \<and> (\<forall>y \<in> set [x]. isnan y)) \<or>
    (\<not> isnan x \<and> x \<in> set [x] \<and> (\<forall>y \<in> set [x]. \<not> isnan y \<longrightarrow> fle x y))"
    by (auto simp: fle_refl)
  from foldl_fmin_least [OF this, of xs] show ?thesis by (simp add: c lo)
qed

lemma nanmax_is_greatest:
  assumes "np_nanmax data = Inr hi"
  shows "greatest_of hi (filter (\<lambda>x. \<not> isnan x) (concat data))"
proof -
  from assms obtain x xs where c: "concat data = x # xs" and hi: "hi = foldl np_fmax x xs"
    by (auto simp: np_nanmax_def split: list.splits)
  have "(isnan x \<and> (\<forall>y \<in> set [x]. isnan y)) \<or>
    (\<not> isnan x \<and> x \<in> set [x] \<and> (\<forall>y \<in> set [x]. \<not> isnan y \<longrightarrow> fle y x))"
    by (auto simp: fle_refl)
  from foldl_fmax_greatest [OF this, of xs] show ?thesis by (simp add: c hi)
qed

lemma member_le_sum_list_int:
  "\<forall>x \<in> set xs. (0::int) \<le> x \<Longrightarrow> y \<in> set xs \<Longrightarrow> y \<le> sum_list xs"
proof (induction xs)
  case Nil
  then show ?case by simp
next
  case (Cons x xs)
  then have "0 \<le> sum_list xs" by (intro sum_list_nonneg) simp
  with Cons show ?case by auto
qed

lemma abs_le_square: "\<bar>d\<bar> \<le> d * (d::int)"
proof (cases "d = 0")
  case False
  then have "1 \<le> \<bar>d\<bar>" by simp
  then have "\<bar>d\<bar> * 1 \<le> \<bar>d\<bar> * \<bar>d\<bar>" by (intro mult_left_mono) simp_all
  then show ?thesis by (simp add: abs_mult_self_eq)
qed simp

lemma abs_sum_nonneg_list: "\<forall>x \<in> set xs. 0 \<le> x \<Longrightarrow> abs_sum xs = sum_list xs"
  by (induction xs) simp_all

lemma nanstd_exact:
  assumes v: "valid_cells band nd = int_cells ks" and a: "abs_sum ks \<le> 2 ^ 24"
    and ne: "ks \<noteq> []" and m: "sum_list ks = m * int (length ks)"
    and q: "sum_list (map (\<lambda>k. (k - m) * (k - m)) ks) \<le> 2 ^ 24"
  shows "np_nanstd (apply_nodata nd band) =
     fsqrt (fdiv (Fin (real_of_int (sum_list (map (\<lambda>k. (k - m) * (k - m)) ks))))
                 (Fin (real (length ks))))"
proof -
  define n where "n = length ks"
  have n: "0 < n" using ne by (simp add: n_def)
  have "\<bar>m\<bar> * 1 \<le> \<bar>m\<bar> * int n" using n by (intro mult_left_mono) simp_all
  also have "\<dots> = \<bar>sum_list ks\<bar>" by (simp add: m n_def abs_mult)
  also have "\<dots> \<le> 2 ^ 24" using abs_sum_list [of ks] a by simp
  finally have mb: "\<bar>m\<bar> \<le> 2 ^ 24" by simp
  have "real_of_int (m * int n) / real n = real_of_int m" using n by simp
  then have mean: "np_nanmean (apply_nodata nd band) = Fin (real_of_int m)"
    using nanmean_exact [OF v a] n round32_int [OF mb] by (simp add: m n_def)
  have nonneg: "\<forall>x \<in> set (map (\<lambda>k. (k - m) * (k - m)) ks). 0 \<le> x" by simp
  have sq: "fmul (fsub (Fin (real_of_int k)) (Fin (real_of_int m)))
                 (fsub (Fin (real_of_int k)) (Fin (real_of_int m)))
      = Fin (real_of_int ((k - m) * (k - m)))" if "k \<in> set ks" for k
  proof -
    from that have "(k - m) * (k - m) \<in> set (map (\<lambda>k. (k - m) * (k - m)) ks)" by auto
    from member_le_sum_list_int [OF nonneg this] q
    have b2: "(k - m) * (k - m) \<le> 2 ^ 24" by simp
    with abs_le_square [of "k - m"] have b1: "\<bar>k - m\<bar> \<le> 2 ^ 24" by simp
    have "\<bar>(k - m) * (k - m)\<bar> \<le> 2 ^ 24" using b2 by (simp add: abs_mult_self_eq)
    from round32_int [OF b1] round32_int [OF this] show ?thesis
      by (simp add: fsub_def)
  qed
  from zero_filled_int [of "is_valid nd" "concat band" ks
      "\<lambda>x. fmul (fsub x (Fin (real_of_int m))) (fsub x (Fin (real_of_int m)))"
      "\<lambda>k. (k - m) * (k - m)"] v sq
  obtain zs where zs: "squared_deviations nd (Fin (real_of_int m)) band = int_cells zs"
    "sum_list zs = sum_list (map (\<lambda>k. (k - m) * (k - m)) ks)"
    "abs_sum zs = abs_sum (map (\<lambda>k. (k - m) * (k - m)) ks)"
    by (auto simp: valid_cells_def squared_deviations_def)
  from zs(3) q abs_sum_nonneg_list [OF nonneg] have "abs_sum zs \<le> 2 ^ 24" by simp
  from np_sum_int [OF this] zs(1,2) mean v show ?thesis
    by (simp add: nanstd_masked)
qed

lemma statistics_of_valid_cells:
  assumes "convert_tiff_to_heightmap band nd = Inr (st, out)"
  shows "least_of (data_min st) (valid_cells band nd)"
    "greatest_of (data_max st) (valid_cells band nd)"
    "data_mean st =
       fdiv (np_sum (valid_or_zero nd band)) (Fin (real (length (valid_cells band nd))))"
    "data_stddev st =
       fsqrt (fdiv (np_sum (squared_deviations nd (data_mean st) band))
                   (Fin (real (length (valid_cells band nd)))))"
  using nanmin_is_least [OF convert_Inr(1) [OF assms]]
    nanmax_is_greatest [OF convert_Inr(2) [OF assms]]
    convert_Inr(3,4) [OF assms]
  by (simp_all add: numbers_of_masked nanmean_masked nanstd_masked)

lemma statistics_exact:
  assumes "convert_tiff_to_heightmap band nd = Inr (st, out)"
    and "valid_cells band nd = int_cells ks" and "abs_sum ks \<le> 2 ^ 24"
  shows "data_mean st = fdiv (Fin (real_of_int (sum_list ks))) (Fin (real (length ks)))"
    and "ks \<noteq> [] \<Longrightarrow> sum_list ks = m * int (length ks) \<Longrightarrow>
       sum_list (map (\<lambda>k. (k - m) * (k - m)) ks) \<le> 2 ^ 24 \<Longrightarrow>
       data_stddev st =
         fsqrt (fdiv (Fin (real_of_int (sum_list (map (\<lambda>k. (k - m) * (k - m)) ks))))
                     (Fin (real (length ks))))"
  using convert_Inr(3,4) [OF assms(1)] nanmean_exact [OF assms(2,3)]
    nanstd_exact [OF assms(2,3)]
  by simp_all



lemma convert_of_masked:
  assumes "apply_nodata nd band = apply_nodata nd' band'"
  shows "convert_tiff_to_heightmap band nd = convert_tiff_to_heightmap band' nd'"
  using assms by (simp add: convert_tiff_to_heightmap_def)

lemma mask_of_filled:
  assumes "\<not> isnan (astype_float32 t)"
  shows "mask_nodata t (map (map (\<lambda>x. if isnan x then astype_float32 t else x)) band)
       = mask_nodata t band"
proof -
  have "(if feq (if isnan x then astype_float32 t else x) (astype_float32 t) then NaN
         else (if isnan x then astype_float32 t else x))
      = (if feq x (astype_float32 t) then NaN else x)" for x
    using assms by (cases x; cases "astype_float32 t") auto
  then show ?thesis by (simp add: mask_nodata_def comp_def)
qed

lemma mask_of_absent:
  assumes "\<forall>x \<in> set (concat band). \<not> feq x (astype_float32 t)"
  shows "mask_nodata t band = band"
proof -
  have "(if feq x (astype_float32 t) then NaN else x) = x"
    if "x \<in> set row" "row \<in> set band" for x row
    using that assms by auto
  then show ?thesis by (simp add: mask_nodata_def map_idI)
qed

lemma valid_cells_numbers: "x \<in> set (valid_cells band nd) \<Longrightarrow> \<not> isnan x"
  by (simp add: valid_cells_def is_valid_def)

text \<open>
  A no-data value that is not a single-precision number masks the cells equal to its
  rounding: 16777217 rounds to 16777216.
\<close>

lemma rounded_sentinel_example:
  "mask_nodata (Fin 16777217) [[Fin 16777216, Fin 2]] = [[NaN, Fin 2]]"
  by (simp add: mask_nodata_def f32_eval)

text \<open>
  A cell that is a single-precision number and equals the no-data value equals its
  rounding too: the no-data value is then a single-precision number itself.
\<close>

lemma representable_sentinel:
  assumes "round32 v = Fin v" and "feq (Fin v) s"
  shows "feq (Fin v) (astype_float32 s)"
proof -
  from assms(2) have "s = Fin v" by (simp add: feq_eq)
  with assms(1) show ?thesis by simp
qed

text \<open>
  The order of the additions shows from 8 cells on.  On \<open>2^21\<close> followed by seven cells
  of \<open>1/8\<close>, half a unit in the last place of \<open>2^21\<close>, adding one cell after the other
  leaves \<open>2^21\<close>, while the 8 running sums are added up in pairs to \<open>2^21 + 3/4\<close>.
\<close>

lemma pairwise_sum_example:
  "np_sum [Fin 2097152, Fin (1/8), Fin (1/8), Fin (1/8), Fin (1/8), Fin (1/8), Fin (1/8),
      Fin (1/8)] = Fin (8388611 / 4)"
  "foldl fadd (Fin 0) [Fin 2097152, Fin (1/8), Fin (1/8), Fin (1/8), Fin (1/8), Fin (1/8),
      Fin (1/8), Fin (1/8)] = Fin 2097152"
proof -
  have a: "fadd (Fin 2097152) (Fin (1/8)) = Fin 2097152"
    by (simp add: f32_eval)
  have b: "fadd (Fin (1/8)) (Fin (1/8)) = Fin (1/4)"
    by (simp add: f32_eval)
  have c: "fadd (Fin 2097152) (Fin (1/4)) = Fin (8388609 / 4)"
    by (simp add: f32_eval)
  have d: "fadd (Fin (1/4)) (Fin (1/4)) = Fin (1/2)"
    by (simp add: f32_eval)
  have e: "fadd (Fin (8388609 / 4)) (Fin (1/2)) = Fin (8388611 / 4)"
    by (simp add: f32_eval)
  have z: "fadd (Fin 0) (Fin 2097152) = Fin 2097152"
    "fadd (Fin 0) (Fin (8388611 / 4)) = Fin (8388611 / 4)"
    by (simp_all add: f32_eval)
  show "np_sum [Fin 2097152, Fin (1/8), Fin (1/8), Fin (1/8), Fin (1/8), Fin (1/8), Fin (1/8),
      Fin (1/8)] = Fin (8388611 / 4)"
    unfolding np_sum_def
    by (simp add: pairwise_sum_block block_sum_def unrolled.simps a b c d e z del: fadd.simps)
  show "foldl fadd (Fin 0) [Fin 2097152, Fin (1/8), Fin (1/8), Fin (1/8), Fin (1/8), Fin (1/8),
      Fin (1/8), Fin (1/8)] = Fin 2097152"
    by (simp add: a z del: fadd.simps)
qed

lemma rhe_unique:
  assumes "of_int n - 1/2 < y" "y < of_int n + 1/2"
  shows "rhe y = n"
proof (cases "y < of_int n")
  case True
  with assms have "\<lfloor>y\<rfloor> = n - 1" by (intro floor_unique) simp_all
  with assms show ?thesis by (simp add: rhe_def Let_def)
next
  case False
  with assms have "\<lfloor>y\<rfloor> = n" by (intro floor_unique) simp_all
  with assms show ?thesis by (simp add: rhe_def Let_def)
qed

lemma round32_bracket:
  assumes k: "- 126 \<le> k" "k \<le> 127" and x: "2 powi k \<le> x" "x < 2 powi (k + 1)"
    and n: "(of_int n - 1/2) * 2 powi (k - 23) < x" "x < (of_int n + 1/2) * 2 powi (k - 23)"
    and fin: "real_of_int n * 2 powi (k - 23) < 2 ^ 128"
  shows "round32 x = Fin (of_int n * 2 powi (k - 23))"
proof -
  have pos: "0 < x" using x(1) zero_less_power_int [of "2::real" k] by linarith
  have e: "expo x = k"
    using pos k x by (intro expo_unique) simp_all
  have q: "quantum x = 2 powi (k - 23)" using pos e by (simp add: quantum_def)
  have qp: "0 < (2::real) powi (k - 23)" by simp
  have "of_int n - 1/2 < x / 2 powi (k - 23)" "x / 2 powi (k - 23) < of_int n + 1/2"
    using n qp by (simp_all add: field_simps)
  then have r: "rhe (x / quantum x) = n" unfolding q by (rule rhe_unique)
  have rf: "round_fin x = of_int n * 2 powi (k - 23)"
    using pos r q by (simp add: round_fin_def)
  have "(2::real) powi (k + 1) \<le> 2 powi 128" using k(2) by (subst p2_le_iff) simp
  with x(2) pos have small: "\<bar>x\<bar> < 2 ^ 128" by simp
  have nn: "0 \<le> round_fin x" by (rule round_fin_nonneg) (use pos in simp)
  from small rf fin nn show ?thesis
    by (simp add: round32_def Let_def)
qed

lemma sqrt_five_quarters: "fsqrt (Fin (5 / 4)) = Fin (9378749 / 8388608)"
proof -
  have lo: "(1::real) \<le> sqrt (5 / 4)" by (rule real_le_rsqrt) simp
  have hi: "sqrt (5 / 4) < (2::real)" by (rule real_less_lsqrt) simp_all
  have a: "(of_int 9378749 - 1/2) * 2 powi (0 - 23) < sqrt (5 / 4)"
    by (rule real_less_rsqrt) (simp add: power2_eq_square)
  have b: "sqrt (5 / 4) < (of_int 9378749 + 1/2) * 2 powi (0 - 23)"
    by (rule real_less_lsqrt) (simp_all add: power2_eq_square)
  have "round32 (sqrt (5 / 4)) = Fin (of_int 9378749 * 2 powi (0 - 23))"
    by (rule round32_bracket [OF _ _ _ _ a b]) (use lo hi in simp_all)
  then show ?thesis by simp
qed

text \<open>
  Why the amended C3 asks for a finite range: on the band \<open>[[-3 * 2^126, 3 * 2^126]]\<close>,
  two finite single-precision cells, the range overflows to infinity, the quotient of
  the maximum cell is infinity over infinity, and the cell gets the fallback 0.
\<close>

lemma overflowing_range_example:
  "round32 (3 * 2 ^ 126) = Fin (3 * 2 ^ 126)
   \<and> \<not> np_isclose (Fin (- (3 * 2 ^ 126))) (Fin (3 * 2 ^ 126))
   \<and> fsub (Fin (3 * 2 ^ 126)) (Fin (- (3 * 2 ^ 126))) = PInf
   \<and> scale_cell (Fin (- (3 * 2 ^ 126))) (Fin (3 * 2 ^ 126)) (Fin (3 * 2 ^ 126)) = 0"
proof -
  have a: "round32 (3 * 2 ^ 126) = Fin (3 * 2 ^ 126)"
    by (simp add: f32_eval)
  have b: "fsub (Fin (3 * 2 ^ 126)) (Fin (- (3 * 2 ^ 126))) = PInf"
    by (simp add: f32_eval)
  have c: "\<not> np_isclose (Fin (- (3 * 2 ^ 126))) (Fin (3 * 2 ^ 126))"
    by (simp add: np_isclose_def atol_value rtol_value f32_eval)
  have d: "scale_cell (Fin (- (3 * 2 ^ 126))) (Fin (3 * 2 ^ 126)) (Fin (3 * 2 ^ 126)) = 0"
    using b by (simp add: scale_cell_def unit_scaled_def np_clip_def trunc_def)
  from a b c d show ?thesis by blast
qed

section \<open>The claims\<close>

text \<open>
  C2.  When the close-enough comparison of the minimum and the maximum of the valid
  cells holds, and in particular when there is a valid cell and all valid cells hold
  the same value, no scaling is done and every cell of the image, valid or not, is 128.
\<close>

theorem degenerate_range_flat_gray:
  assumes "convert_tiff_to_heightmap band nodata_val = Inr (st, out)"
    and "np_isclose (data_min st) (data_max st)
       \<or> (valid_cells band nodata_val \<noteq> []
           \<and> (\<forall>x \<in> set (valid_cells band nodata_val).
                \<forall>y \<in> set (valid_cells band nodata_val). x = y))"
  shows "out = map (map (\<lambda>x. 128)) band"
proof -
  have "np_isclose (data_min st) (data_max st)"
    using assms(2)
  proof
    assume "valid_cells band nodata_val \<noteq> []
      \<and> (\<forall>x \<in> set (valid_cells band nodata_val).
           \<forall>y \<in> set (valid_cells band nodata_val). x = y)"
    with statistics_of_valid_cells(1,2) [OF assms(1)]
    have "data_min st \<in> set (valid_cells band nodata_val)" "data_min st = data_max st"
      by (auto simp: least_of_def greatest_of_def)
    then have "feq (data_min st) (data_max st)"
      by (auto simp: valid_cells_def is_valid_def feq_eq)
    then show ?thesis by (simp add: np_isclose_def)
  qed
  with convert_Inr(6) [OF assms(1)] show ?thesis
    by (cases nodata_val) (simp_all add: apply_nodata_def mask_nodata_def comp_def)
qed

theorem degenerate_range_flat_gray_witness:
  "convert_tiff_to_heightmap [[Fin 5, Fin 5], [Fin 5, Fin 5]] None =
     Inr (\<lparr>data_min = Fin 5, data_max = Fin 5, data_mean = Fin 5, data_stddev = Fin 0,
           elevation_range = Fin 0\<rparr>, [[128, 128], [128, 128]])
   \<and> np_isclose (Fin 5) (Fin 5)
   \<and> valid_cells [[Fin 5, Fin 5], [Fin 5, Fin 5]] None = [Fin 5, Fin 5, Fin 5, Fin 5]"
proof -
  have c: "np_isclose (Fin 5) (Fin 5)"
    by (simp add: np_isclose_def)
  have s: "np_nanstd [[Fin 5, Fin 5], [Fin 5, Fin 5]] = Fin 0"
    by (simp add: np_eval np_sum_short f32_eval)
  have m: "np_nanmean [[Fin 5, Fin 5], [Fin 5, Fin 5]] = Fin 5"
    by (simp add: np_eval np_sum_short f32_eval)
  have v: "valid_cells [[Fin 5, Fin 5], [Fin 5, Fin 5]] None = [Fin 5, Fin 5, Fin 5, Fin 5]"
    by (simp add: valid_cells_def is_valid_def)
  have h: "convert_tiff_to_heightmap [[Fin 5, Fin 5], [Fin 5, Fin 5]] None =
     Inr (\<lparr>data_min = Fin 5, data_max = Fin 5, data_mean = Fin 5, data_stddev = Fin 0,
           elevation_range = Fin 0\<rparr>, map (map (\<lambda>x. 128)) [[Fin 5, Fin 5], [Fin 5, Fin 5]])"
    using c s m
    by (simp add: convert_tiff_to_heightmap_def apply_nodata_def np_nanmin_def np_nanmax_def
        np_fmin_def np_fmax_def fsub_def)
  have e: "valid_cells [[Fin 5, Fin 5], [Fin 5, Fin 5]] None \<noteq> []
    \<and> (\<forall>x \<in> set (valid_cells [[Fin 5, Fin 5], [Fin 5, Fin 5]] None).
         \<forall>y \<in> set (valid_cells [[Fin 5, Fin 5], [Fin 5, Fin 5]] None). x = y)"
    by (simp add: v)
  from degenerate_range_flat_gray [OF h disjI2 [OF e]] c h v show ?thesis by simp
qed

text \<open>
  C5.  For a band with at least one cell, with or without a no-data value and whatever
  the cells are (numbers, infinities, not-a-numbers), the conversion returns an image
  whose every cell is in the range 0 to 255; and every value the scaling hands to the
  8-bit conversion is a finite number between 0 and 255, so the conversion never wraps.
\<close>

theorem intensity_in_byte_range:
  assumes "concat band \<noteq> []"
  shows "\<exists>st out. convert_tiff_to_heightmap band nodata_val = Inr (st, out)
     \<and> (\<forall>row \<in> set out. \<forall>c \<in> set row. 0 \<le> uint c \<and> uint c \<le> 255)
     \<and> (\<forall>row \<in> set (apply_nodata nodata_val band). \<forall>x \<in> set row.
          \<exists>w. fmul (unit_scaled (data_min st) (data_max st) x) (Fin 255) = Fin w
             \<and> 0 \<le> w \<and> w \<le> 255)"
proof -
  from convert_returns [OF assms] obtain st out
    where c: "convert_tiff_to_heightmap band nodata_val = Inr (st, out)" by blast
  have "uint c \<le> 255" for c :: "8 word"
    using uint_lt2p [of c] by simp
  with c scaled_value show ?thesis by auto
qed

theorem intensity_in_byte_range_witness:
  "concat [[Fin 1, NaN], [PInf, NInf]] \<noteq> []
   \<and> (\<exists>st out. convert_tiff_to_heightmap [[Fin 1, NaN], [PInf, NInf]] (Some (Fin 1)) = Inr (st, out)
     \<and> (\<forall>row \<in> set out. \<forall>c \<in> set row. 0 \<le> uint c \<and> uint c \<le> 255)
     \<and> (\<forall>row \<in> set (apply_nodata (Some (Fin 1)) [[Fin 1, NaN], [PInf, NInf]]). \<forall>x \<in> set row.
          \<exists>w. fmul (unit_scaled (data_min st) (data_max st) x) (Fin 255) = Fin w
             \<and> 0 \<le> w \<and> w \<le> 255))"
proof -
  have h: "concat [[Fin 1, NaN], [PInf, NInf]] \<noteq> []" by simp
  from intensity_in_byte_range [OF h, of "Some (Fin 1)"] h show ?thesis by blast
qed

text \<open>
  C6.  In the scaling branch the 8-bit cell is the integer part of the single-precision
  product of the clipped value and 255: the product lies between 0 and 255 and the cell
  is its floor, not the nearest integer.  An instance is the cell 1 of the band
  \<open>[[0, 1, 2]]\<close>, whose product is 127.5 and whose intensity is 127.
\<close>

theorem cast_truncates:
  assumes "convert_tiff_to_heightmap band nodata_val = Inr (st, out)"
    and "\<not> np_isclose (data_min st) (data_max st)"
    and "i < length band" and "j < length (band ! i)"
  shows "\<exists>w. fmul (unit_scaled (data_min st) (data_max st) (apply_nodata nodata_val band ! i ! j))
               (Fin 255) = Fin w
           \<and> 0 \<le> w \<and> w \<le> 255 \<and> uint (out ! i ! j) = \<lfloor>w\<rfloor>"
proof -
  define data where "data = apply_nodata nodata_val band"
  have len: "i < length data" "j < length (data ! i)"
    using shape_apply_nodata [of nodata_val band] assms(3,4)
    by (metis data_def length_map nth_map)+
  from convert_Inr(6) [OF assms(1)] assms(2)
  have "out = map (map (scale_cell (data_min st) (data_max st))) data"
    by (simp add: data_def)
  with len have o: "out ! i ! j = scale_cell (data_min st) (data_max st) (data ! i ! j)"
    by simp
  from scaled_value obtain w
    where w: "fmul (unit_scaled (data_min st) (data_max st) (data ! i ! j)) (Fin 255) = Fin w"
      "0 \<le> w" "w \<le> 255" by blast
  from scale_cell_floor [OF w(1)] o w show ?thesis
    by (simp add: data_def)
qed

theorem cast_truncates_witness:
  "\<exists>st out. convert_tiff_to_heightmap [[Fin 0, Fin 1, Fin 2]] None = Inr (st, out)
     \<and> \<not> np_isclose (data_min st) (data_max st)
     \<and> (0::nat) < length [[Fin 0, Fin 1, Fin 2]] \<and> (1::nat) < length ([[Fin 0, Fin 1, Fin 2]] ! 0)
     \<and> fmul (unit_scaled (data_min st) (data_max st) (Fin 1)) (Fin 255) = Fin (255 / 2)
     \<and> out ! 0 ! 1 = 127"
proof -
  obtain st out where h: "convert_tiff_to_heightmap [[Fin 0, Fin 1, Fin 2]] None = Inr (st, out)"
    using convert_returns [of "[[Fin 0, Fin 1, Fin 2]]" None] by auto
  have "np_nanmin (apply_nodata None [[Fin 0, Fin 1, Fin 2]]) = Inr (Fin 0)"
    by (simp add: apply_nodata_def np_nanmin_def np_fmin_def)
  with convert_Inr(1) [OF h] have lo: "data_min st = Fin 0" by simp
  have "np_nanmax (apply_nodata None [[Fin 0, Fin 1, Fin 2]]) = Inr (Fin 2)"
    by (simp add: apply_nodata_def np_nanmax_def np_fmax_def)
  with convert_Inr(2) [OF h] have hi: "data_max st = Fin 2" by simp
  have nc: "\<not> np_isclose (data_min st) (data_max st)"
    by (simp add: lo hi isclose_0_2)
  have i: "(0::nat) < length [[Fin 0, Fin 1, Fin 2]]"
    and j: "(1::nat) < length ([[Fin 0, Fin 1, Fin 2]] ! 0)" by simp_all
  have v: "fmul (unit_scaled (Fin 0) (Fin 2) (Fin 1)) (Fin 255) = Fin (255 / 2)"
    by (simp add: unit_scaled_def np_clip_def f32_eval)
  from cast_truncates [OF h nc i j] obtain w
    where w: "fmul (unit_scaled (data_min st) (data_max st)
                 (apply_nodata None [[Fin 0, Fin 1, Fin 2]] ! 0 ! 1)) (Fin 255) = Fin w"
      "uint (out ! 0 ! 1) = \<lfloor>w\<rfloor>" by blast
  from w(1) v have "w = 255 / 2"
    by (simp add: lo hi apply_nodata_def)
  with w(2) have "uint (out ! 0 ! 1) = 127" by simp
  then have o: "out ! 0 ! 1 = 127"
    by (simp add: word_uint_eq_iff)
  from v have v': "fmul (unit_scaled (data_min st) (data_max st) (Fin 1)) (Fin 255) = Fin (255 / 2)"
    by (simp only: lo hi)
  from h nc i j v' o show ?thesis by blast
qed

text \<open>
  C8.  The conversion is total on bands with at least one cell: whatever the cells and
  the no-data value are, it returns statistics and an image of the shape of the band and
  raises nothing; and whatever the bounds and the cell are, clipping and the fallback
  for not-a-number and the infinities leave a finite number.
\<close>

theorem conversion_total:
  assumes "concat band \<noteq> []"
  shows "(\<exists>st out. convert_tiff_to_heightmap band nodata_val = Inr (st, out)
           \<and> map length out = map length band)
    \<and> isfinite (unit_scaled lo hi x)"
proof -
  from convert_returns [OF assms] obtain st out
    where c: "convert_tiff_to_heightmap band nodata_val = Inr (st, out)" by blast
  with convert_shape [OF c]
  have "\<exists>st out. convert_tiff_to_heightmap band nodata_val = Inr (st, out)
           \<and> map length out = map length band" by blast
  moreover from unit_scaled_range [of lo hi x] have "isfinite (unit_scaled lo hi x)" by auto
  ultimately show ?thesis by blast
qed

theorem conversion_total_witness:
  "concat [[NaN, PInf], [NInf, Fin 7]] \<noteq> []
   \<and> (\<exists>st out. convert_tiff_to_heightmap [[NaN, PInf], [NInf, Fin 7]] (Some (Fin 7)) = Inr (st, out)
           \<and> map length out = map length [[NaN, PInf], [NInf, Fin 7]])
   \<and> isfinite (unit_scaled NInf PInf NaN)"
proof -
  have h: "concat [[NaN, PInf], [NInf, Fin 7]] \<noteq> []" by simp
  from conversion_total [OF h, where nodata_val = "Some (Fin 7)" and lo = NInf and hi = PInf and x = NaN] h
  show ?thesis by blast
qed

text \<open>
  C9.  When every cell of the band equals the no-data value (compared in single
  precision, as the mask compares; a single-precision cell equal to the no-data value
  itself is such a cell), the masked band is not-a-number everywhere, the close-enough
  comparison of not-a-number with not-a-number is false, the scaling branch runs and
  every cell of the image is 0 (not 128); the printed statistics are all not-a-number.
\<close>

theorem all_nodata_grid:
  assumes "concat band \<noteq> []"
    and "\<forall>x \<in> set (concat band). feq x (astype_float32 s)"
  shows "apply_nodata (Some s) band = map (map (\<lambda>x. NaN)) band
    \<and> \<not> np_isclose NaN NaN
    \<and> convert_tiff_to_heightmap band (Some s) =
        Inr (\<lparr>data_min = NaN, data_max = NaN, data_mean = NaN, data_stddev = NaN,
              elevation_range = NaN\<rparr>, map (map (\<lambda>x. 0)) band)"
proof -
  define data where "data = apply_nodata (Some s) band"
  have d: "data = map (map (\<lambda>x. NaN)) band"
    using assms(2) by (auto simp: data_def apply_nodata_def mask_nodata_def)
  have cd: "concat data = map (\<lambda>x. NaN) (concat band)"
    by (simp add: d map_concat)
  with assms(1) obtain ys where ys: "concat data = NaN # ys" "\<forall>y \<in> set ys. isnan y"
    by (cases "concat band") auto
  have all: "\<forall>y \<in> set (concat data). isnan y" using ys by simp
  have lo: "np_nanmin data = Inr NaN"
    using ys by (simp add: np_nanmin_def foldl_fmin_nan)
  have hi: "np_nanmax data = Inr NaN"
    using ys by (simp add: np_nanmax_def foldl_fmax_nan)
  have cnt: "count_numbers (concat data) = 0"
    using all by (simp add: count_numbers_def)
  have "\<forall>x \<in> set (zero_nans (concat data)). x = Fin 0"
    using all by (auto simp: zero_nans_def)
  then have "np_sum (zero_nans (concat data)) = Fin 0"
    by (rule np_sum_zeros)
  with cnt have mean: "np_nanmean data = NaN"
    by (simp add: np_nanmean_def)
  have std: "np_nanstd data = NaN"
    using cnt by (simp add: np_nanstd_def np_nanvar_def)
  have "map (map (scale_cell NaN NaN)) data = map (map (\<lambda>x. 0)) band"
    by (simp add: d comp_def scale_cell_nan)
  with lo hi mean std not_isclose_nan d show ?thesis
    by (simp add: convert_tiff_to_heightmap_def data_def [symmetric] fsub_def)
qed

theorem all_nodata_grid_witness:
  "concat [[Fin (- 9999), Fin (- 9999)]] \<noteq> []
   \<and> feq (Fin (- 9999)) (astype_float32 (Fin (- 9999)))
   \<and> convert_tiff_to_heightmap [[Fin (- 9999), Fin (- 9999)]] (Some (Fin (- 9999))) =
        Inr (\<lparr>data_min = NaN, data_max = NaN, data_mean = NaN, data_stddev = NaN,
              elevation_range = NaN\<rparr>, [[0, 0]])"
proof -
  have h: "concat [[Fin (- 9999), Fin (- 9999)]] \<noteq> []" by simp
  have r: "round32 (- 9999) = Fin (- 9999)"
    by (simp add: f32_eval)
  have a: "\<forall>x \<in> set (concat [[Fin (- 9999), Fin (- 9999)]]).
      feq x (astype_float32 (Fin (- 9999)))"
    by (simp add: r)
  from all_nodata_grid [OF h a] r show ?thesis by simp
qed

text \<open>
  C4.  The mapping from cell value to intensity is monotonic non-decreasing: when the
  value of one valid cell is less than the value of another, its intensity is at most
  the other's.  This holds in the scaling branch and, both cells being 128, in the
  flat branch too.
\<close>

theorem scaling_monotone:
  assumes "convert_tiff_to_heightmap band nodata_val = Inr (st, out)"
    and "i < length band" and "j < length (band ! i)"
    and "i' < length band" and "j' < length (band ! i')"
    and "flt (apply_nodata nodata_val band ! i ! j) (apply_nodata nodata_val band ! i' ! j')"
  shows "out ! i ! j \<le> out ! i' ! j'"
proof -
  have "\<not> is_neg (fsub (data_max st) (data_min st))"
    by (rule range_not_negative
        [OF nanmin_le_nanmax [OF convert_Inr(1) [OF assms(1)] convert_Inr(2) [OF assms(1)]]])
  from scale_cell_mono [OF this flt_fle [OF assms(6)]]
    cell_of_image [OF assms(1,2,3)] cell_of_image [OF assms(1,4,5)]
  show ?thesis by simp
qed

theorem scaling_monotone_witness:
  "\<exists>st out. convert_tiff_to_heightmap [[Fin 1, Fin 2], [Fin 3, Fin 4]] None = Inr (st, out)
     \<and> (0::nat) < length [[Fin 1, Fin 2], [Fin 3, Fin 4]]
     \<and> (1::nat) < length ([[Fin 1, Fin 2], [Fin 3, Fin 4]] ! 0)
     \<and> (1::nat) < length [[Fin 1, Fin 2], [Fin 3, Fin 4]]
     \<and> (0::nat) < length ([[Fin 1, Fin 2], [Fin 3, Fin 4]] ! 1)
     \<and> flt (apply_nodata None [[Fin 1, Fin 2], [Fin 3, Fin 4]] ! 0 ! 1)
            (apply_nodata None [[Fin 1, Fin 2], [Fin 3, Fin 4]] ! 1 ! 0)
     \<and> out ! 0 ! 1 \<le> out ! 1 ! 0"
proof -
  obtain st out
    where h: "convert_tiff_to_heightmap [[Fin 1, Fin 2], [Fin 3, Fin 4]] None = Inr (st, out)"
    using convert_returns [of "[[Fin 1, Fin 2], [Fin 3, Fin 4]]" None] by auto
  have i: "(0::nat) < length [[Fin 1, Fin 2], [Fin 3, Fin 4]]"
    and j: "(1::nat) < length ([[Fin 1, Fin 2], [Fin 3, Fin 4]] ! 0)"
    and i': "(1::nat) < length [[Fin 1, Fin 2], [Fin 3, Fin 4]]"
    and j': "(0::nat) < length ([[Fin 1, Fin 2], [Fin 3, Fin 4]] ! 1)" by simp_all
  have lt: "flt (apply_nodata None [[Fin 1, Fin 2], [Fin 3, Fin 4]] ! 0 ! 1)
            (apply_nodata None [[Fin 1, Fin 2], [Fin 3, Fin 4]] ! 1 ! 0)"
    by (simp add: apply_nodata_def)
  from scaling_monotone [OF h i j i' j' lt] h i j i' j' lt show ?thesis by blast
qed

text \<open>
  C3, as the code has it.  The claim asks for 0 and 255 whenever the valid minimum differs
  from the valid maximum.  The code scales only when the close-enough comparison of the
  two fails: on the band \<open>[[1000000, 1000002]]\<close> minimum and maximum differ, the comparison
  holds (2 is within \<open>1e-8 + 1e-5 * 1000002\<close>) and both cells are 128.
\<close>

theorem boundary_intensities_counterexample:
  "convert_tiff_to_heightmap [[Fin 1000000, Fin 1000002]] None =
     Inr (\<lparr>data_min = Fin 1000000, data_max = Fin 1000002, data_mean = Fin 1000001,
           data_stddev = Fin 1, elevation_range = Fin 2\<rparr>, [[128, 128]])
   \<and> Fin 1000000 \<noteq> Fin 1000002 \<and> (128 :: 8 word) \<noteq> 0 \<and> (128 :: 8 word) \<noteq> 255"
proof -
  have c: "np_isclose (Fin 1000000) (Fin 1000002)"
    by (simp add: np_isclose_def atol_value rtol_value f32_eval)
  have m: "np_nanmean [[Fin 1000000, Fin 1000002]] = Fin 1000001"
    by (simp add: np_eval np_sum_short f32_eval)
  have s: "np_nanstd [[Fin 1000000, Fin 1000002]] = Fin 1"
    by (simp add: np_eval np_sum_short f32_eval)
  have r: "fsub (Fin 1000002) (Fin 1000000) = Fin 2"
    by (simp add: f32_eval)
  show ?thesis
    using c m s r
    by (simp add: convert_tiff_to_heightmap_def apply_nodata_def np_nanmin_def np_nanmax_def
        np_fmin_def np_fmax_def)
qed

text \<open>
  C3, amended.  In the scaling branch (the close-enough comparison of minimum and
  maximum is false) every cell that attains the minimum has intensity 0; and when the
  printed range, maximum minus minimum in single precision, is finite, every cell that
  attains the maximum has intensity 255.
\<close>

theorem boundary_intensities:
  assumes "convert_tiff_to_heightmap band nodata_val = Inr (st, out)"
    and "\<not> np_isclose (data_min st) (data_max st)"
    and "i < length band" and "j < length (band ! i)"
  shows "(feq (apply_nodata nodata_val band ! i ! j) (data_min st) \<longrightarrow> out ! i ! j = 0)
    \<and> (isfinite (elevation_range st) \<and> feq (apply_nodata nodata_val band ! i ! j) (data_max st)
         \<longrightarrow> out ! i ! j = 255)"
proof -
  define x where "x = apply_nodata nodata_val band ! i ! j"
  have o: "out ! i ! j = scale_cell (data_min st) (data_max st) x"
    using cell_of_image [OF assms(1,3,4)] assms(2) by (simp add: x_def)
  have "out ! i ! j = 0" if "feq x (data_min st)"
    using that o scale_cell_min [of "data_min st" "data_max st"] by (simp add: feq_eq)
  moreover have "out ! i ! j = 255" if f: "isfinite (elevation_range st)" and e: "feq x (data_max st)"
  proof -
    from f convert_Inr(5) [OF assms(1)] obtain d
      where d: "fsub (data_max st) (data_min st) = Fin d"
      by (cases "fsub (data_max st) (data_min st)") simp_all
    with zero_range_isclose [of "data_max st" "data_min st"] assms(2) have "d \<noteq> 0" by auto
    from scale_cell_max [OF d this] e o show ?thesis by (simp add: feq_eq)
  qed
  ultimately show ?thesis unfolding x_def by blast
qed

theorem boundary_intensities_witness:
  "\<exists>st out. convert_tiff_to_heightmap [[Fin 1, Fin 2], [Fin 3, Fin 4]] None = Inr (st, out)
     \<and> \<not> np_isclose (data_min st) (data_max st)
     \<and> (1::nat) < length [[Fin 1, Fin 2], [Fin 3, Fin 4]]
     \<and> (1::nat) < length ([[Fin 1, Fin 2], [Fin 3, Fin 4]] ! 1)
     \<and> isfinite (elevation_range st)
     \<and> feq (apply_nodata None [[Fin 1, Fin 2], [Fin 3, Fin 4]] ! 1 ! 1) (data_max st)
     \<and> out ! 1 ! 1 = 255
     \<and> (0::nat) < length [[Fin 1, Fin 2], [Fin 3, Fin 4]]
     \<and> (0::nat) < length ([[Fin 1, Fin 2], [Fin 3, Fin 4]] ! 0)
     \<and> feq (apply_nodata None [[Fin 1, Fin 2], [Fin 3, Fin 4]] ! 0 ! 0) (data_min st)
     \<and> out ! 0 ! 0 = 0"
proof -
  obtain st out
    where h: "convert_tiff_to_heightmap [[Fin 1, Fin 2], [Fin 3, Fin 4]] None = Inr (st, out)"
    using convert_returns [of "[[Fin 1, Fin 2], [Fin 3, Fin 4]]" None] by auto
  have "np_nanmin (apply_nodata None [[Fin 1, Fin 2], [Fin 3, Fin 4]]) = Inr (Fin 1)"
    by (simp add: apply_nodata_def np_nanmin_def np_fmin_def)
  with convert_Inr(1) [OF h] have lo: "data_min st = Fin 1" by simp
  have "np_nanmax (apply_nodata None [[Fin 1, Fin 2], [Fin 3, Fin 4]]) = Inr (Fin 4)"
    by (simp add: apply_nodata_def np_nanmax_def np_fmax_def)
  with convert_Inr(2) [OF h] have hi: "data_max st = Fin 4" by simp
  have "\<not> np_isclose (Fin 1) (Fin 4)"
    by (simp add: np_isclose_def atol_value rtol_value f32_eval)
  then have nc: "\<not> np_isclose (data_min st) (data_max st)" by (simp add: lo hi)
  have "fsub (Fin 4) (Fin 1) = Fin 3" by (simp add: f32_eval)
  with convert_Inr(5) [OF h] have fin: "isfinite (elevation_range st)" by (simp add: lo hi)
  have i1: "(1::nat) < length [[Fin 1, Fin 2], [Fin 3, Fin 4]]"
    and j1: "(1::nat) < length ([[Fin 1, Fin 2], [Fin 3, Fin 4]] ! 1)"
    and i0: "(0::nat) < length [[Fin 1, Fin 2], [Fin 3, Fin 4]]"
    and j0: "(0::nat) < length ([[Fin 1, Fin 2], [Fin 3, Fin 4]] ! 0)" by simp_all
  have e1: "feq (apply_nodata None [[Fin 1, Fin 2], [Fin 3, Fin 4]] ! 1 ! 1) (data_max st)"
    and e0: "feq (apply_nodata None [[Fin 1, Fin 2], [Fin 3, Fin 4]] ! 0 ! 0) (data_min st)"
    by (simp_all add: apply_nodata_def lo hi)
  from boundary_intensities [OF h nc i1 j1] fin e1 have o1: "out ! 1 ! 1 = 255" by blast
  from boundary_intensities [OF h nc i0 j0] e0 have o0: "out ! 0 ! 0 = 0" by blast
  from h nc i1 j1 fin e1 o1 i0 j0 e0 o0 show ?thesis by blast
qed



text \<open>
  C10.  A cell that is not-a-number in the band as read is left out of the minimum, the
  maximum, the mean and the standard deviation exactly as a masked cell is, with or
  without a sentinel: no valid cell is not-a-number, the statistics are those of the
  valid cells (as in C1: in the sums a not-a-number stands as zero, as a masked cell
  does, and it is not counted), and the band gives the same result as the band that
  holds the sentinel in place of each not-a-number.  Without a sentinel the same holds
  for any number that no cell equals, taken as the sentinel.
\<close>

theorem nan_cells_excluded:
  assumes "convert_tiff_to_heightmap band nodata_val = Inr (st, out)"
  shows "(\<forall>x \<in> set (valid_cells band nodata_val). \<not> isnan x)
    \<and> least_of (data_min st) (valid_cells band nodata_val)
    \<and> greatest_of (data_max st) (valid_cells band nodata_val)
    \<and> data_mean st = fdiv (np_sum (valid_or_zero nodata_val band))
                           (Fin (real (length (valid_cells band nodata_val))))
    \<and> data_stddev st = fsqrt (fdiv (np_sum (squared_deviations nodata_val (data_mean st) band))
                                    (Fin (real (length (valid_cells band nodata_val)))))
    \<and> (\<forall>ks. valid_cells band nodata_val = int_cells ks \<and> abs_sum ks \<le> 2 ^ 24
          \<longrightarrow> data_mean st = fdiv (Fin (real_of_int (sum_list ks))) (Fin (real (length ks))))
    \<and> (\<forall>t. \<not> isnan (astype_float32 t)
            \<and> (nodata_val = Some t
               \<or> nodata_val = None \<and> (\<forall>x \<in> set (concat band). \<not> feq x (astype_float32 t)))
          \<longrightarrow> convert_tiff_to_heightmap
                (map (map (\<lambda>x. if isnan x then astype_float32 t else x)) band) (Some t)
              = Inr (st, out))"
proof -
  have "convert_tiff_to_heightmap
          (map (map (\<lambda>x. if isnan x then astype_float32 t else x)) band) (Some t)
        = Inr (st, out)"
    if n: "\<not> isnan (astype_float32 t)"
      and c: "nodata_val = Some t
        \<or> nodata_val = None \<and> (\<forall>x \<in> set (concat band). \<not> feq x (astype_float32 t))" for t
  proof -
    have "apply_nodata (Some t) (map (map (\<lambda>x. if isnan x then astype_float32 t else x)) band)
        = apply_nodata nodata_val band"
      using c mask_of_filled [OF n, of band] mask_of_absent [of band t]
      by (auto simp: apply_nodata_def)
    from convert_of_masked [OF this] assms show ?thesis by simp
  qed
  with statistics_of_valid_cells [OF assms] statistics_exact(1) [OF assms]
    valid_cells_numbers [of _ band nodata_val]
  show ?thesis by blast
qed

theorem nan_cells_excluded_witness:
  "convert_tiff_to_heightmap [[Fin 1, NaN, Fin 3], [Fin 1, Fin (- 9999), Fin 3]]
       (Some (Fin (- 9999)))
     = Inr (\<lparr>data_min = Fin 1, data_max = Fin 3, data_mean = Fin 2, data_stddev = Fin 1,
             elevation_range = Fin 2\<rparr>, [[0, 0, 255], [0, 0, 255]])
   \<and> valid_cells [[Fin 1, NaN, Fin 3], [Fin 1, Fin (- 9999), Fin 3]] (Some (Fin (- 9999)))
       = int_cells [1, 3, 1, 3]
   \<and> \<not> isnan (astype_float32 (Fin (- 9999)))
   \<and> convert_tiff_to_heightmap [[Fin 1, Fin (- 9999), Fin 3], [Fin 1, Fin (- 9999), Fin 3]]
       (Some (Fin (- 9999)))
     = Inr (\<lparr>data_min = Fin 1, data_max = Fin 3, data_mean = Fin 2, data_stddev = Fin 1,
             elevation_range = Fin 2\<rparr>, [[0, 0, 255], [0, 0, 255]])"
proof -
  define B where "B = [[Fin 1, NaN, Fin 3], [Fin 1, Fin (- 9999), Fin 3]]"
  define st0 where "st0 = \<lparr>data_min = Fin 1, data_max = Fin 3, data_mean = Fin 2,
    data_stddev = Fin 1, elevation_range = Fin 2\<rparr>"
  have r: "round32 (- 9999) = Fin (- 9999)"
    by (simp add: f32_eval)
  have d: "apply_nodata (Some (Fin (- 9999))) B = [[Fin 1, NaN, Fin 3], [Fin 1, NaN, Fin 3]]"
    by (simp add: B_def apply_nodata_def mask_nodata_def r)
  have c: "\<not> np_isclose (Fin 1) (Fin 3)"
    by (simp add: np_isclose_def atol_value rtol_value f32_eval)
  have m: "np_nanmean [[Fin 1, NaN, Fin 3], [Fin 1, NaN, Fin 3]] = Fin 2"
    by (simp add: np_eval np_sum_short f32_eval)
  have sd: "np_nanstd [[Fin 1, NaN, Fin 3], [Fin 1, NaN, Fin 3]] = Fin 1"
    by (simp add: np_eval np_sum_short f32_eval)
  have e: "fsub (Fin 3) (Fin 1) = Fin 2"
    by (simp add: f32_eval)
  have i: "map (map (scale_cell (Fin 1) (Fin 3))) [[Fin 1, NaN, Fin 3], [Fin 1, NaN, Fin 3]]
      = [[0, 0, 255], [0, 0, 255]]"
    by (simp add: scale_cell_def unit_scaled_def np_clip_def f32_eval)
  have h: "convert_tiff_to_heightmap B (Some (Fin (- 9999)))
      = Inr (st0, [[0, 0, 255], [0, 0, 255]])"
    using c m sd e i
    by (simp add: convert_tiff_to_heightmap_def d np_nanmin_def np_nanmax_def
        np_fmin_def np_fmax_def st0_def)
  have v: "valid_cells B (Some (Fin (- 9999))) = int_cells [1, 3, 1, 3]"
    by (simp add: B_def valid_cells_def is_valid_def r)
  have n: "\<not> isnan (astype_float32 (Fin (- 9999)))" by (simp add: r)
  from nan_cells_excluded [OF h] n
  have "convert_tiff_to_heightmap
      (map (map (\<lambda>x. if isnan x then astype_float32 (Fin (- 9999)) else x)) B)
      (Some (Fin (- 9999))) = Inr (st0, [[0, 0, 255], [0, 0, 255]])" by blast
  then have "convert_tiff_to_heightmap
      [[Fin 1, Fin (- 9999), Fin 3], [Fin 1, Fin (- 9999), Fin 3]] (Some (Fin (- 9999)))
      = Inr (st0, [[0, 0, 255], [0, 0, 255]])"
    by (simp add: B_def r)
  with h v n show ?thesis unfolding B_def st0_def by simp
qed

text \<open>
  C7.  On the band \<open>[[1, 2], [3, 4]]\<close> with no sentinel the minimum is 1, the maximum 4,
  the mean 2.5, the standard deviation the single-precision square root of 1.25, which
  is 9378749 / 8388608 = 1.1180340..., within a thousandth of 1.118, and the image is
  \<open>[[0, 85], [170, 255]]\<close>.
\<close>

theorem scenario_one_to_four:
  "convert_tiff_to_heightmap [[Fin 1, Fin 2], [Fin 3, Fin 4]] None =
     Inr (\<lparr>data_min = Fin 1, data_max = Fin 4, data_mean = Fin (5 / 2),
           data_stddev = Fin (9378749 / 8388608), elevation_range = Fin 3\<rparr>,
          [[0, 85], [170, 255]])
   \<and> \<bar>9378749 / 8388608 - 1118 / 1000\<bar> < (1 / 1000 :: real)"
proof -
  have c: "\<not> np_isclose (Fin 1) (Fin 4)"
    by (simp add: np_isclose_def atol_value rtol_value f32_eval)
  have m: "np_nanmean [[Fin 1, Fin 2], [Fin 3, Fin 4]] = Fin (5 / 2)"
    by (simp add: np_eval np_sum_short f32_eval)
  have "np_nanvar [[Fin 1, Fin 2], [Fin 3, Fin 4]] = Fin (5 / 4)"
    by (simp add: np_eval np_sum_short f32_eval)
  then have s: "np_nanstd [[Fin 1, Fin 2], [Fin 3, Fin 4]] = Fin (9378749 / 8388608)"
    by (simp only: np_nanstd_def sqrt_five_quarters)
  have r: "fsub (Fin 4) (Fin 1) = Fin 3"
    by (simp add: f32_eval)
  have i: "map (map (scale_cell (Fin 1) (Fin 4))) [[Fin 1, Fin 2], [Fin 3, Fin 4]]
      = [[0, 85], [170, 255]]"
    by (simp add: scale_cell_def unit_scaled_def np_clip_def f32_eval)
  have "convert_tiff_to_heightmap [[Fin 1, Fin 2], [Fin 3, Fin 4]] None =
     Inr (\<lparr>data_min = Fin 1, data_max = Fin 4, data_mean = Fin (5 / 2),
           data_stddev = Fin (9378749 / 8388608), elevation_range = Fin 3\<rparr>,
          [[0, 85], [170, 255]])"
    using c m s r i
    by (simp add: convert_tiff_to_heightmap_def apply_nodata_def np_nanmin_def np_nanmax_def
        np_fmin_def np_fmax_def)
  then show ?thesis by simp
qed

end
